theory Spec2Isabelle
  imports Main "HOL-Library.Word"
begin

section \<open>The trie of trie.c\<close>

text \<open>
  The data of \<^verbatim>\<open>trie.c\<close>: a \<^verbatim>\<open>node_t\<close> holds an array of \<^verbatim>\<open>NUM_CHILD\<close> child
  pointers, the character of the key at its level, an \<^verbatim>\<open>int\<close> value and the flag
  \<^verbatim>\<open>has_value\<close>; a \<^verbatim>\<open>trie_t\<close> holds the pointer to the root node.

  Every node is obtained from \<^verbatim>\<open>malloc\<close> and its address is stored in one place only,
  the slot of its parent, so the pointer structure is a tree. A child pointer is a
  \<^typ>\<open>'a option\<close> (\<open>None\<close> is \<^verbatim>\<open>NULL\<close>), the child array a list that is read with
  \<open>!\<close> and written with list update, and a write through a node pointer rebuilds the
  path from the root to that node. The nodes handed to \<^verbatim>\<open>free\<close> are listed in the
  result of the deletion; the subtree under a slot that is set to \<^verbatim>\<open>NULL\<close> is no
  longer part of the trie.

  A key is the list of the characters that precede the terminating NUL; the loop
  counters of the source are \<^verbatim>\<open>int\<close> and \<^verbatim>\<open>unsigned\<close> and equal the positions in
  that list for keys shorter than \<open>2^31\<close> characters, the keys this development is
  about. The operations take a pointer to a trie that \<^verbatim>\<open>create_trie\<close> returned, hence
  one that is not \<^verbatim>\<open>NULL\<close>. The \<^verbatim>\<open>int\<close> stored with a key is a word of 32 bits,
  and \<^verbatim>\<open>assert\<close> is taken as compiled in.
\<close>

definition NUM_CHILD :: nat where
  "NUM_CHILD = 26"

type_synonym cint = "32 word"

datatype node = Node (child: "node option list") (key: char) (val: cint) (has_value: bool)

datatype trie = Trie (trie_child: node)

text \<open>What \<^verbatim>\<open>memset(node, 0, sizeof(node_t))\<close> leaves, with the field \<^verbatim>\<open>key\<close> set to \<open>c\<close>.\<close>

definition zeroed :: "char \<Rightarrow> node" where
  "zeroed c = Node (replicate NUM_CHILD None) c 0 False"

subsection \<open>Allocation\<close>

text \<open>
  \<^verbatim>\<open>malloc\<close> may return \<^verbatim>\<open>NULL\<close>, and each caller in \<^verbatim>\<open>trie.c\<close> returns at the first
  \<^verbatim>\<open>NULL\<close> it sees. Within one call the behaviour of \<^verbatim>\<open>malloc\<close> is therefore the
  number of requests it grants before it first refuses: \<open>Some n\<close> grants the next \<open>n\<close>
  requests and refuses the one after them, \<open>None\<close> never refuses.
\<close>

type_synonym allocator = "nat option"

definition malloc_ok :: "allocator \<Rightarrow> bool" where
  "malloc_ok a = (a \<noteq> Some 0)"

definition after_malloc :: "allocator \<Rightarrow> allocator" where
  "after_malloc a = map_option (\<lambda>n. n - 1) a"

text \<open>The next \<open>n\<close> requests are granted.\<close>

definition mallocs_succeed :: "allocator \<Rightarrow> nat \<Rightarrow> bool" where
  "mallocs_succeed a n = (case a of None \<Rightarrow> True | Some m \<Rightarrow> n \<le> m)"

datatype fault = Assertion_failed | Uninitialised_index

subsection \<open>Helpers\<close>

text \<open>\<^verbatim>\<open>key_permitted\<close>: every character lies between \<^verbatim>\<open>'a'\<close> and \<^verbatim>\<open>'z'\<close>.\<close>

fun key_permitted :: "string \<Rightarrow> bool" where
  "key_permitted [] = True"
| "key_permitted (c # cs) =
     (if (of_char CHR ''a'' :: nat) \<le> of_char c \<and> (of_char c :: nat) \<le> of_char CHR ''z''
      then key_permitted cs else False)"

text \<open>\<^verbatim>\<open>key_to_index\<close>: \<^verbatim>\<open>ch - 'a'\<close>, converted to \<^verbatim>\<open>unsigned char\<close>.\<close>

definition key_to_index :: "char \<Rightarrow> nat" where
  "key_to_index ch = (of_char ch + 256 - of_char CHR ''a'') mod 256"

text \<open>The loops of \<^verbatim>\<open>node_has_children\<close> and \<^verbatim>\<open>node_has_multiple_children\<close> over the
  slots \<open>0 .. NUM_CHILD - 1\<close>.\<close>

fun any_child :: "node \<Rightarrow> nat list \<Rightarrow> bool" where
  "any_child nd [] = False"
| "any_child nd (i # is) = (if child nd ! i \<noteq> None then True else any_child nd is)"

definition node_has_children :: "node option \<Rightarrow> bool" where
  "node_has_children p = (case p of None \<Rightarrow> False | Some nd \<Rightarrow> any_child nd [0..<NUM_CHILD])"

fun second_child :: "node \<Rightarrow> nat list \<Rightarrow> nat \<Rightarrow> bool" where
  "second_child nd [] num_of_children = False"
| "second_child nd (i # is) num_of_children =
     (if child nd ! i \<noteq> None
      then (if num_of_children + 1 > 1 then True else second_child nd is (num_of_children + 1))
      else second_child nd is num_of_children)"

definition node_has_multiple_children :: "node option \<Rightarrow> bool" where
  "node_has_multiple_children p =
     (case p of None \<Rightarrow> False | Some nd \<Rightarrow> second_child nd [0..<NUM_CHILD] 0)"

subsection \<open>create, add, lookup\<close>

text \<open>\<^verbatim>\<open>create_trie\<close> asks for the trie and then for its root node; \<open>None\<close> is the
  \<^verbatim>\<open>NULL\<close> it returns when either request is refused.\<close>

definition create_trie :: "allocator \<Rightarrow> trie option" where
  "create_trie a =
     (if \<not> malloc_ok a then None
      else if \<not> malloc_ok (after_malloc a) then None
      else Some (Trie (zeroed (CHR 0x00))))"

text \<open>
  The loop of \<^verbatim>\<open>add_to_trie\<close>. The pointer \<^verbatim>\<open>node\<close> descends one level for each
  character; the recursion returns the node it was given as the loop leaves it, so
  that the parent stores it back into the slot it was reached through. A refused
  request leaves the slot \<^verbatim>\<open>NULL\<close> and returns \<^verbatim>\<open>FALSE\<close>, the nodes linked so far
  remaining in place.
\<close>

fun add_nodes :: "node \<Rightarrow> string \<Rightarrow> cint \<Rightarrow> allocator \<Rightarrow> bool \<times> node" where
  "add_nodes nd [] v a = (True, Node (child nd) (key nd) v True)"
| "add_nodes nd (c # cs) v a =
     (case child nd ! key_to_index c of
        None \<Rightarrow>
          (if \<not> malloc_ok a then (False, nd)
           else (case add_nodes (zeroed c) cs v (after_malloc a) of
                   (ok, new) \<Rightarrow>
                     (ok, Node ((child nd)[key_to_index c := Some new]) (key nd) (val nd)
                            (has_value nd))))
      | Some next \<Rightarrow>
          (case add_nodes next cs v a of
             (ok, next') \<Rightarrow>
               (ok, Node ((child nd)[key_to_index c := Some next']) (key nd) (val nd)
                      (has_value nd))))"

definition add_to_trie :: "string \<Rightarrow> cint \<Rightarrow> trie \<Rightarrow> allocator \<Rightarrow> bool \<times> trie" where
  "add_to_trie k v t a =
     (if \<not> key_permitted k then (False, t)
      else (case add_nodes (trie_child t) k v a of (ok, r) \<Rightarrow> (ok, Trie r)))"

text \<open>\<^verbatim>\<open>lookup_in_trie\<close>: \<open>None\<close> is \<^verbatim>\<open>FALSE\<close>, \<open>Some v\<close> is \<^verbatim>\<open>TRUE\<close> with \<open>v\<close> written
  to \<^verbatim>\<open>*value\<close>.\<close>

fun lookup_nodes :: "node \<Rightarrow> string \<Rightarrow> cint option" where
  "lookup_nodes nd [] = (if \<not> has_value nd then None else Some (val nd))"
| "lookup_nodes nd (c # cs) =
     (case child nd ! key_to_index c of
        None \<Rightarrow> None
      | Some next \<Rightarrow> lookup_nodes next cs)"

definition lookup_in_trie :: "trie \<Rightarrow> string \<Rightarrow> cint option" where
  "lookup_in_trie t k = (if \<not> key_permitted k then None else lookup_nodes (trie_child t) k)"

subsection \<open>delete\<close>

text \<open>The local variables of \<^verbatim>\<open>delete_from_trie\<close> that its first loop updates.
  \<^verbatim>\<open>starting_index_being_freed\<close> is declared without a value: \<open>None\<close> until the loop
  assigns it.\<close>

record walk =
  node :: node
  nodes_to_be_deleted :: "node list"
  index_of_last_node_with_value :: int
  starting_index_being_freed :: "nat option"
  index_being_freed_changed :: bool

text \<open>The first loop, from position \<open>i\<close> on; \<open>None\<close> is the jump to
  \<^verbatim>\<open>error_handling\<close>.\<close>

fun delete_walk :: "string \<Rightarrow> int \<Rightarrow> int \<Rightarrow> walk \<Rightarrow> walk option" where
  "delete_walk [] i size_of_key w = Some w"
| "delete_walk (c # cs) i size_of_key w =
     (let w1 = (if index_being_freed_changed w
                then w\<lparr>starting_index_being_freed := Some (key_to_index c),
                       index_being_freed_changed := False\<rparr>
                else w)
      in case child (node w1) ! key_to_index c of
           None \<Rightarrow> None
         | Some nd \<Rightarrow>
             (let w2 = w1\<lparr>node := nd, nodes_to_be_deleted := nodes_to_be_deleted w1 @ [nd]\<rparr>;
                  w3 = (if (has_value nd \<or> node_has_multiple_children (Some nd))
                           \<and> i \<noteq> size_of_key - 1
                        then w2\<lparr>index_of_last_node_with_value := i,
                                index_being_freed_changed := True\<rparr>
                        else w2)
              in delete_walk cs (i + 1) size_of_key w3))"

text \<open>A write through the pointer to the node that the path \<open>p\<close> leads to.\<close>

fun store_at :: "string \<Rightarrow> (node \<Rightarrow> node) \<Rightarrow> node \<Rightarrow> node" where
  "store_at [] f nd = f nd"
| "store_at (c # cs) f nd =
     (case child nd ! key_to_index c of
        None \<Rightarrow> nd
      | Some next \<Rightarrow>
          Node ((child nd)[key_to_index c := Some (store_at cs f next)]) (key nd) (val nd)
            (has_value nd))"

text \<open>\<^verbatim>\<open>node->has_value = FALSE; node->value = 0;\<close>\<close>

definition clear_value :: "node \<Rightarrow> node" where
  "clear_value nd = Node (child nd) (key nd) 0 False"

text \<open>\<^verbatim>\<open>node->child[s] = NULL;\<close>\<close>

definition clear_slot :: "nat \<Rightarrow> node \<Rightarrow> node" where
  "clear_slot s nd = Node ((child nd)[s := None]) (key nd) (val nd) (has_value nd)"

text \<open>The second loop: the nodes handed to \<^verbatim>\<open>free\<close>, in the order of the calls, for
  \<open>i\<close> from \<open>size_of_key - 1\<close> down to \<open>index_of_last_node_with_value + 1\<close>.\<close>

definition freed_nodes :: "node list \<Rightarrow> int \<Rightarrow> int \<Rightarrow> node list" where
  "freed_nodes ns size_of_key l = map (\<lambda>i. ns ! i) (rev [nat (l + 1)..<nat size_of_key])"

text \<open>
  \<^verbatim>\<open>delete_from_trie\<close> returns the boolean, the trie as it leaves it and the nodes it
  freed. When the second loop ends, \<open>i\<close> is \<^verbatim>\<open>index_of_last_node_with_value\<close>, and
  \<^verbatim>\<open>nodes_to_be_deleted[i]\<close> is the node that the first \<open>i + 1\<close> characters of the key
  lead to: the slot is emptied in that node, or in the root when the index is negative.
  With the empty key the first loop does not run, and when the root then has a value
  and no child the source indexes the root's array with the unassigned
  \<^verbatim>\<open>starting_index_being_freed\<close>: the fault \<open>Uninitialised_index\<close>.
\<close>

definition delete_from_trie :: "trie \<Rightarrow> string \<Rightarrow> allocator \<Rightarrow> fault + (bool \<times> trie \<times> node list)" where
  "delete_from_trie t k a =
     (if \<not> key_permitted k then Inr (False, t, [])
      else if \<not> malloc_ok a then Inr (False, t, [])
      else
        (case delete_walk k 0 (int (length k))
                \<lparr>node = trie_child t, nodes_to_be_deleted = [],
                 index_of_last_node_with_value = - 1,
                 starting_index_being_freed = None,
                 index_being_freed_changed = True\<rparr> of
           None \<Rightarrow> Inr (False, t, [])
         | Some w \<Rightarrow>
             if \<not> has_value (node w) then Inr (False, t, [])
             else if node_has_children (Some (node w))
             then Inr (True, Trie (store_at k clear_value (trie_child t)), [])
             else
               (let l = index_of_last_node_with_value w;
                    freed = freed_nodes (nodes_to_be_deleted w) (int (length k)) l
                in case starting_index_being_freed w of
                     None \<Rightarrow> Inl Uninitialised_index
                   | Some s \<Rightarrow>
                       if l < 0
                       then Inr (True, Trie (clear_slot s (trie_child t)), freed)
                       else Inr (True,
                              Trie (store_at (take (nat l + 1) k) (clear_slot s) (trie_child t)),
                              freed))))"

text \<open>\<^verbatim>\<open>destroy_trie\<close>: the assertion on every slot of the root, then the two calls of
  \<^verbatim>\<open>free\<close>.\<close>

definition destroy_trie :: "trie \<Rightarrow> fault + unit" where
  "destroy_trie t =
     (if list_all (\<lambda>i. child (trie_child t) ! i = None) [0..<NUM_CHILD] then Inr ()
      else Inl Assertion_failed)"


section \<open>Notions used to state the properties\<close>

text \<open>The characters that \<^const>\<open>key_permitted\<close> lets through, and the keys the
  specification calls valid: permitted and not empty.\<close>

definition letter :: "char \<Rightarrow> bool" where
  "letter c = ((of_char CHR ''a'' :: nat) \<le> of_char c \<and> (of_char c :: nat) \<le> of_char CHR ''z'')"

definition valid_key :: "string \<Rightarrow> bool" where
  "valid_key k = (key_permitted k \<and> k \<noteq> [])"

text \<open>The occupied slots of a node.\<close>

definition slots :: "node \<Rightarrow> nat set" where
  "slots nd = {i. i < NUM_CHILD \<and> child nd ! i \<noteq> None}"

text \<open>The shape that the C type gives every node: its child array has \<^const>\<open>NUM_CHILD\<close>
  slots, and so have the arrays of the nodes below it.\<close>

fun wf_node :: "node \<Rightarrow> bool" where
  "wf_node (Node cs k v h) =
     (length cs = NUM_CHILD \<and> (\<forall>c\<in>set cs. case c of None \<Rightarrow> True | Some m \<Rightarrow> wf_node m))"

definition wf_trie :: "trie \<Rightarrow> bool" where
  "wf_trie t = wf_node (trie_child t)"

text \<open>
  The invariant of the data model: no node other than the root is a leaf that has no
  stored value. \<open>live nd\<close> says that \<open>nd\<close> has a value or a child and that the same holds of
  every node below it; \<open>below nd\<close> says it of the nodes below \<open>nd\<close> only, which is
  what is asked of the root.
\<close>

fun live :: "node \<Rightarrow> bool" where
  "live (Node cs k v h) =
     ((h \<or> node_has_children (Some (Node cs k v h))) \<and>
      (\<forall>c\<in>set cs. case c of None \<Rightarrow> True | Some m \<Rightarrow> live m))"

definition below :: "node \<Rightarrow> bool" where
  "below nd = (\<forall>c\<in>set (child nd). case c of None \<Rightarrow> True | Some m \<Rightarrow> live m)"

definition no_dead_leaf :: "trie \<Rightarrow> bool" where
  "no_dead_leaf t = below (trie_child t)"

text \<open>The node that the path \<open>p\<close> leads to, and the nodes met on the way, which are
  the entries that the first loop of \<^verbatim>\<open>delete_from_trie\<close> writes to
  \<^verbatim>\<open>nodes_to_be_deleted\<close>.\<close>

fun node_at :: "node \<Rightarrow> string \<Rightarrow> node option" where
  "node_at nd [] = Some nd"
| "node_at nd (c # cs) =
     (case child nd ! key_to_index c of None \<Rightarrow> None | Some m \<Rightarrow> node_at m cs)"

fun path_nodes :: "node \<Rightarrow> string \<Rightarrow> node list" where
  "path_nodes nd [] = []"
| "path_nodes nd (c # cs) =
     (case child nd ! key_to_index c of None \<Rightarrow> [] | Some m \<Rightarrow> m # path_nodes m cs)"

text \<open>
  What the first loop of \<^verbatim>\<open>delete_from_trie\<close> looks for: a node with a value or with
  more than one child. \<open>lb_inside nd p\<close> says that such a node lies on the path \<open>p\<close>
  from \<open>nd\<close>, before its last node. \<open>prune nd p\<close> is \<open>nd\<close> with the slot emptied that
  leads from the last such node (from \<open>nd\<close> itself when there is none) towards the end
  of \<open>p\<close>; the lemma \<open>delete_walk_cut\<close> shows that the indices the loop computes
  describe this cut. \<open>chain m p\<close> says that the path \<open>p\<close> from \<open>m\<close> exists, meets no
  such node, \<open>m\<close> included, and ends in a node without children.
\<close>

definition load_bearing :: "node \<Rightarrow> bool" where
  "load_bearing m = (has_value m \<or> node_has_multiple_children (Some m))"

fun lb_inside :: "node \<Rightarrow> string \<Rightarrow> bool" where
  "lb_inside nd (c # c' # cs) =
     (case child nd ! key_to_index c of
        None \<Rightarrow> False
      | Some m \<Rightarrow> load_bearing m \<or> lb_inside m (c' # cs))"
| "lb_inside nd cs = False"

fun prune :: "node \<Rightarrow> string \<Rightarrow> node" where
  "prune nd [] = nd"
| "prune nd (c # cs) =
     (case child nd ! key_to_index c of
        None \<Rightarrow> nd
      | Some m \<Rightarrow>
          if lb_inside nd (c # cs)
          then Node ((child nd)[key_to_index c := Some (prune m cs)]) (key nd) (val nd) (has_value nd)
          else clear_slot (key_to_index c) nd)"

fun chain :: "node \<Rightarrow> string \<Rightarrow> bool" where
  "chain m [] = (\<not> node_has_children (Some m))"
| "chain m (c # cs) =
     (\<not> load_bearing m \<and>
      (case child m ! key_to_index c of None \<Rightarrow> False | Some m' \<Rightarrow> chain m' cs))"

text \<open>The values of the local variables of \<^verbatim>\<open>delete_from_trie\<close> when its first loop
  starts.\<close>

definition walk0 :: "trie \<Rightarrow> walk" where
  "walk0 t = \<lparr>node = trie_child t, nodes_to_be_deleted = [],
                 index_of_last_node_with_value = - 1,
                 starting_index_being_freed = None,
                 index_being_freed_changed = True\<rparr>"

subsection \<open>Sequences of operations and the finite map they describe\<close>

text \<open>A call of \<^verbatim>\<open>add_to_trie\<close> or of \<^verbatim>\<open>delete_from_trie\<close>, with the behaviour of
  \<^verbatim>\<open>malloc\<close> during the call.\<close>

datatype op = Insert string cint allocator | Delete string allocator

fun op_key :: "op \<Rightarrow> string" where
  "op_key (Insert k v a) = k"
| "op_key (Delete k a) = k"

fun apply_op :: "trie \<Rightarrow> op \<Rightarrow> fault + (bool \<times> trie)" where
  "apply_op t (Insert k v a) = Inr (add_to_trie k v t a)"
| "apply_op t (Delete k a) =
     (case delete_from_trie t k a of
        Inl f \<Rightarrow> Inl f
      | Inr (ok, t', freed) \<Rightarrow> Inr (ok, t'))"

text \<open>The calls are made one after the other; the result is the trie at the end and
  the boolean each call returned.\<close>

fun run :: "trie \<Rightarrow> op list \<Rightarrow> fault + (trie \<times> bool list)" where
  "run t [] = Inr (t, [])"
| "run t (x # xs) =
     (case apply_op t x of
        Inl f \<Rightarrow> Inl f
      | Inr (ok, t') \<Rightarrow>
          (case run t' xs of
             Inl f \<Rightarrow> Inl f
           | Inr (t'', oks) \<Rightarrow> Inr (t'', ok # oks)))"

text \<open>
  The finite map of the specification, read off a history of calls paired with the
  booleans they returned, the most recent call first: the value of the most recent
  successful insert of \<open>k\<close> unless a successful delete of \<open>k\<close> came after it.
\<close>

fun latest :: "(op \<times> bool) list \<Rightarrow> string \<Rightarrow> cint option" where
  "latest [] k = None"
| "latest ((Insert k' v a, ok) # h) k = (if ok \<and> k' = k then Some v else latest h k)"
| "latest ((Delete k' a, ok) # h) k = (if ok \<and> k' = k then None else latest h k)"

definition finite_map :: "op list \<Rightarrow> bool list \<Rightarrow> string \<Rightarrow> cint option" where
  "finite_map ops oks = latest (rev (zip ops oks))"

text \<open>A call that is an insertion returned \<^verbatim>\<open>TRUE\<close>.\<close>

fun inserted :: "op \<Rightarrow> bool \<Rightarrow> bool" where
  "inserted (Insert k v a) ok = ok"
| "inserted (Delete k a) ok = True"

text \<open>
  The booleans a sequence of calls returns, as a finite map decides them: a deletion
  returns \<^verbatim>\<open>TRUE\<close> exactly when \<^verbatim>\<open>malloc\<close> grants its request and the map of the
  calls before it holds the key, and an insertion returns \<^verbatim>\<open>TRUE\<close> when its requests
  are granted.
\<close>

definition answers_as_map :: "op list \<Rightarrow> bool list \<Rightarrow> bool" where
  "answers_as_map ops oks =
     (\<forall>i<length ops.
        case ops ! i of
          Insert k v a \<Rightarrow> mallocs_succeed a (length k) \<longrightarrow> oks ! i
        | Delete k a \<Rightarrow>
            oks ! i = (malloc_ok a \<and> finite_map (take i ops) (take i oks) k \<noteq> None))"

subsection \<open>Tries used as examples\<close>

definition empty_trie :: trie where
  "empty_trie = Trie (zeroed (CHR 0x00))"

text \<open>The trie of \<^verbatim>\<open>main.c\<close> after its three insertions, and one that holds a key and
  a prefix of it.\<close>

definition abc_trie :: trie where
  "abc_trie =
     snd (add_to_trie ''ac'' 3
       (snd (add_to_trie ''ab'' 2 (snd (add_to_trie ''aa'' 1 empty_trie None)) None)) None)"

definition prefix_trie :: trie where
  "prefix_trie = snd (add_to_trie ''abc'' 2 (snd (add_to_trie ''ab'' 1 empty_trie None)) None)"

text \<open>The calls of \<^verbatim>\<open>main.c\<close>, all of whose requests \<^verbatim>\<open>malloc\<close> grants.\<close>

definition main_c_ops :: "op list" where
  "main_c_ops =
     [Insert ''aa'' 1 None, Insert ''ab'' 2 None, Insert ''ac'' 3 None,
      Delete ''ab'' None, Insert ''aaak'' 10 None,
      Delete ''aa'' None, Delete ''ac'' None, Delete ''ab'' None, Delete ''aaak'' None]"

text \<open>
  How many of the leading characters of a key have their node on the key's path: what
  an insertion of the key need not allocate.
\<close>

fun linked :: "node \<Rightarrow> string \<Rightarrow> nat" where
  "linked nd [] = 0"
| "linked nd (c # cs) =
     (case child nd ! key_to_index c of None \<Rightarrow> 0 | Some m \<Rightarrow> Suc (linked m cs))"

text \<open>Three calls, in the second of which \<^verbatim>\<open>malloc\<close> grants the node for \<open>b\<close> and
  refuses the node for \<open>c\<close>, and the trie they end in.\<close>

definition refused_insert_ops :: "op list" where
  "refused_insert_ops = [Insert ''a'' 1 None, Insert ''bc'' 2 (Some 1), Delete ''a'' None]"

definition stranded_trie :: trie where
  "stranded_trie =
     Trie (Node ((replicate NUM_CHILD None)[1 := Some (zeroed CHR ''b'')]) (CHR 0x00) 0 False)"

section \<open>Properties of the helpers\<close>

lemma key_permitted_Cons [simp]: "key_permitted (c # cs) = (letter c \<and> key_permitted cs)"
  by (auto simp: letter_def)

declare key_permitted.simps(2) [simp del]

lemma key_permitted_iff: "key_permitted k = (\<forall>c\<in>set k. letter c)"
  by (induction k) auto

lemma key_permitted_append: "key_permitted (xs @ ys) = (key_permitted xs \<and> key_permitted ys)"
  by (auto simp: key_permitted_iff)

lemma key_to_index_letter: "letter c \<Longrightarrow> key_to_index c = of_char c - 97"
proof -
  define x where "x = (of_char c :: nat)"
  assume "letter c"
  then have b: "97 \<le> x" "x \<le> 122"
    by (simp_all add: letter_def x_def)
  then have "x + 256 - 97 = (x - 97) + 256" by arith
  then have "(x + 256 - 97) mod 256 = (x - 97) mod 256"
    by (simp only: mod_add_self2)
  also from b have "(x - 97) mod 256 = x - 97"
    by (intro mod_less) arith
  finally show ?thesis by (simp add: key_to_index_def x_def)
qed

lemma key_to_index_less: "letter c \<Longrightarrow> key_to_index c < NUM_CHILD"
proof -
  define x where "x = (of_char c :: nat)"
  assume l: "letter c"
  then have "97 \<le> x \<and> x \<le> 122"
    by (simp add: letter_def x_def)
  then have "x - 97 < 26" by arith
  with l show ?thesis by (simp add: key_to_index_letter NUM_CHILD_def x_def)
qed

lemma key_to_index_inj: "letter c \<Longrightarrow> letter d \<Longrightarrow> key_to_index c = key_to_index d \<Longrightarrow> c = d"
proof -
  assume a: "letter c" "letter d" "key_to_index c = key_to_index d"
  then have "(of_char c :: nat) - 97 = of_char d - 97"
    by (simp add: key_to_index_letter)
  moreover from a have "97 \<le> (of_char c :: nat)" "97 \<le> (of_char d :: nat)"
    by (simp_all add: letter_def)
  ultimately have "(of_char c :: nat) = of_char d" by arith
  then show "c = d" by simp
qed

lemma any_child_iff: "any_child nd is = (\<exists>i\<in>set is. child nd ! i \<noteq> None)"
  by (induction "is") auto

lemma second_child_iff:
  "n \<le> 1 \<Longrightarrow> second_child nd is n = (1 < n + length (filter (\<lambda>i. child nd ! i \<noteq> None) is))"
  by (induction "is" arbitrary: n) auto

lemma finite_slots [simp]: "finite (slots nd)"
  by (simp add: slots_def)

lemma has_children_iff: "node_has_children (Some nd) = (slots nd \<noteq> {})"
  by (auto simp: node_has_children_def any_child_iff slots_def)

lemma filter_upt_slots: "set (filter (\<lambda>i. child nd ! i \<noteq> None) [0..<NUM_CHILD]) = slots nd"
  by (auto simp: slots_def)

lemma multiple_children_iff: "node_has_multiple_children (Some nd) = (1 < card (slots nd))"
proof -
  have "card (set (filter (\<lambda>i. child nd ! i \<noteq> None) [0..<NUM_CHILD]))
        = length (filter (\<lambda>i. child nd ! i \<noteq> None) [0..<NUM_CHILD])"
    by (rule distinct_card) simp
  then have "length (filter (\<lambda>i. child nd ! i \<noteq> None) [0..<NUM_CHILD]) = card (slots nd)"
    by (simp only: filter_upt_slots)
  then show ?thesis
    by (simp add: node_has_multiple_children_def second_child_iff)
qed

lemma single_slot:
  assumes "\<not> node_has_multiple_children (Some nd)" "i \<in> slots nd" "j \<in> slots nd"
  shows "i = j"
proof (rule ccontr)
  assume "i \<noteq> j"
  with assms(2,3) have "card {i, j} \<le> card (slots nd)"
    by (intro card_mono) auto
  moreover from \<open>i \<noteq> j\<close> have "card {i, j} = 2" by simp
  ultimately have "1 < card (slots nd)" by arith
  with assms(1) show False by (simp add: multiple_children_iff)
qed

lemma slots_clear_slot_sub: "slots nd - {s} \<subseteq> slots (clear_slot s nd)"
  by (auto simp: slots_def clear_slot_def)

lemma slots_clear_slot:
  "length (child nd) = NUM_CHILD \<Longrightarrow> slots (clear_slot s nd) = slots nd - {s}"
proof -
  assume len: "length (child nd) = NUM_CHILD"
  have "(child nd)[s := None] ! i \<noteq> None \<longleftrightarrow> child nd ! i \<noteq> None \<and> i \<noteq> s"
    if "i < NUM_CHILD" for i
    using that len by (cases "i = s") simp_all
  then show ?thesis
    by (auto simp: slots_def clear_slot_def)
qed

lemma multiple_clear_slot:
  assumes "node_has_multiple_children (Some nd)"
  shows "node_has_children (Some (clear_slot s nd))"
proof -
  from assms have "1 < card (slots nd)" by (simp add: multiple_children_iff)
  then have "card (slots nd - {s}) \<noteq> 0" by (simp add: card_Diff_singleton_if)
  then have "slots nd - {s} \<noteq> {}" by auto
  with slots_clear_slot_sub [of nd s] show ?thesis
    by (auto simp: has_children_iff)
qed

lemma slots_zeroed [simp]: "slots (zeroed c) = {}"
  by (auto simp: slots_def zeroed_def)

lemma delete_walk_None:
  "(delete_walk cs i n w = None) = (node_at (node w) cs = None)"
  by (induction cs arbitrary: i w) (auto simp: Let_def split: option.splits)

lemma delete_walk_node:
  "map_option node (delete_walk cs i n w) = node_at (node w) cs"
  by (induction cs arbitrary: i w) (simp_all add: Let_def split: option.splits)

lemma delete_walk_nodes:
  "map_option nodes_to_be_deleted (delete_walk cs i n w)
   = map_option (\<lambda>_. nodes_to_be_deleted w @ path_nodes (node w) cs) (node_at (node w) cs)"
  by (induction cs arbitrary: i w) (simp_all add: Let_def split: option.splits)

lemma delete_walk_cut:
  assumes "delete_walk cs i n w = Some w'" "n = i + int (length cs)" "cs \<noteq> []"
  shows "if lb_inside (node w) cs
         then i \<le> index_of_last_node_with_value w' \<and> index_of_last_node_with_value w' < n - 1 \<and>
              (\<exists>s. starting_index_being_freed w' = Some s \<and>
                 store_at (take (nat (index_of_last_node_with_value w' - i) + 1) cs) (clear_slot s) (node w)
                   = prune (node w) cs)
         else index_of_last_node_with_value w' = index_of_last_node_with_value w \<and>
              starting_index_being_freed w' =
                (if index_being_freed_changed w then Some (key_to_index (hd cs))
                 else starting_index_being_freed w)"
  using assms
proof (induction cs arbitrary: i w)
  case Nil
  then show ?case by simp
next
  case (Cons c cs)
  from Cons.prems(1) obtain m where m: "child (node w) ! key_to_index c = Some m"
    by (auto simp: Let_def split: option.splits if_splits)
  show ?case
  proof (cases cs)
    case Nil
    with Cons.prems m show ?thesis
      by (auto simp: Let_def split: if_splits)
  next
    case (Cons c' cs')
    define w3 where "w3 =
      (if load_bearing m
       then \<lparr>node = m, nodes_to_be_deleted = nodes_to_be_deleted w @ [m],
             index_of_last_node_with_value = i,
             starting_index_being_freed =
               (if index_being_freed_changed w then Some (key_to_index c)
                else starting_index_being_freed w),
             index_being_freed_changed = True\<rparr>
       else \<lparr>node = m, nodes_to_be_deleted = nodes_to_be_deleted w @ [m],
             index_of_last_node_with_value = index_of_last_node_with_value w,
             starting_index_being_freed =
               (if index_being_freed_changed w then Some (key_to_index c)
                else starting_index_being_freed w),
             index_being_freed_changed = False\<rparr>)"
    have ne: "i \<noteq> n - 1" using Cons.prems(2) Cons by simp
    have walk: "delete_walk cs (i + 1) n w3 = Some w'"
      using Cons.prems(1) m ne
      by (cases w) (auto simp: Let_def w3_def load_bearing_def split: if_splits)
    have n': "n = (i + 1) + int (length cs)" using Cons.prems(2) by simp
    have csne: "cs \<noteq> []" using Cons by simp
    note IH = Cons.IH [OF walk n' csne]
    have node3: "node w3 = m" by (simp add: w3_def)
    have inside: "lb_inside (node w) (c # cs) = (load_bearing m \<or> lb_inside m cs)"
      using m Cons by simp
    show ?thesis
    proof (cases "lb_inside m cs")
      case True
      with IH node3 obtain s where
        l: "i + 1 \<le> index_of_last_node_with_value w'" "index_of_last_node_with_value w' < n - 1"
        and s: "starting_index_being_freed w' = Some s"
        and st: "store_at (take (nat (index_of_last_node_with_value w' - (i + 1)) + 1) cs) (clear_slot s) m
                 = prune m cs"
        by auto
      from l have "nat (index_of_last_node_with_value w' - i) = Suc (nat (index_of_last_node_with_value w' - (i + 1)))"
        by simp
      with st m have "store_at (take (nat (index_of_last_node_with_value w' - i) + 1) (c # cs)) (clear_slot s) (node w)
            = prune (node w) (c # cs)"
        using inside True by simp
      with l s inside True show ?thesis by auto
    next
      case False
      show ?thesis
      proof (cases "load_bearing m")
        case lb: True
        with IH False node3 have l: "index_of_last_node_with_value w' = i"
          and s: "starting_index_being_freed w' = Some (key_to_index (hd cs))"
          by (simp_all add: w3_def)
        from walk have "node_at m cs \<noteq> None"
          using delete_walk_None [of cs "i + 1" n w3] node3 by simp
        then have "prune m cs = clear_slot (key_to_index (hd cs)) m"
          using False Cons by (auto split: option.splits)
        with m have "store_at (take (nat (index_of_last_node_with_value w' - i) + 1) (c # cs))
                (clear_slot (key_to_index (hd cs))) (node w) = prune (node w) (c # cs)"
          using inside lb l by simp
        with l s inside lb ne Cons.prems(2) show ?thesis by auto
      next
        case nlb: False
        with IH False node3 show ?thesis
          using inside by (simp add: w3_def)
      qed
    qed
  qed
qed

lemma wf_node_iff:
  "wf_node nd = (length (child nd) = NUM_CHILD \<and>
     (\<forall>i<NUM_CHILD. \<forall>m. child nd ! i = Some m \<longrightarrow> wf_node m))"
  by (cases nd) (auto simp: all_set_conv_all_nth split: option.splits)

lemma wf_Node:
  "wf_node (Node cs k v h) = (length cs = NUM_CHILD \<and>
     (\<forall>i<NUM_CHILD. \<forall>m. cs ! i = Some m \<longrightarrow> wf_node m))"
  using wf_node_iff [of "Node cs k v h"] by simp

declare wf_node.simps [simp del]

lemma wf_length: "wf_node nd \<Longrightarrow> length (child nd) = NUM_CHILD"
  using wf_node_iff [of nd] by blast

lemma wf_child: "wf_node nd \<Longrightarrow> child nd ! i = Some m \<Longrightarrow> i < NUM_CHILD \<Longrightarrow> wf_node m"
  using wf_node_iff [of nd] by blast

lemma wf_update:
  assumes "wf_node nd" "wf_node m"
  shows "wf_node (Node ((child nd)[i := Some m]) k v h)"
proof -
  have "wf_node m'" if "i' < NUM_CHILD" "(child nd)[i := Some m] ! i' = Some m'" for i' m'
  proof (cases "i' = i")
    case True
    with that assms show ?thesis by (simp add: wf_length)
  next
    case False
    with that have "child nd ! i' = Some m'" by simp
    with assms(1) that(1) show ?thesis by (rule_tac wf_child)
  qed
  with assms(1) show ?thesis
    unfolding wf_Node by (simp add: wf_length)
qed

lemma wf_fields:
  "wf_node nd \<Longrightarrow> wf_node (Node (child nd) k v h)"
  unfolding wf_Node using wf_node_iff [of nd] by blast

lemma wf_clear_value: "wf_node nd \<Longrightarrow> wf_node (clear_value nd)"
  by (simp add: clear_value_def wf_fields)

lemma wf_clear_slot:
  assumes "wf_node nd"
  shows "wf_node (clear_slot s nd)"
proof -
  have "wf_node m'" if "i' < NUM_CHILD" "(child nd)[s := None] ! i' = Some m'" for i' m'
  proof (cases "i' = s")
    case True
    with that assms show ?thesis by (simp add: wf_length)
  next
    case False
    with that have "child nd ! i' = Some m'" by simp
    with assms(1) that(1) show ?thesis by (rule_tac wf_child)
  qed
  with assms(1) show ?thesis
    unfolding wf_Node clear_slot_def by (simp add: wf_length)
qed

lemma wf_zeroed: "wf_node (zeroed c)"
  by (simp add: zeroed_def wf_Node)

lemma wf_add_nodes: "wf_node nd \<Longrightarrow> wf_node (snd (add_nodes nd k v a))"
proof (induction k arbitrary: nd a)
  case Nil
  then show ?case by (simp add: wf_fields)
next
  case (Cons c cs)
  show ?case
  proof (cases "child nd ! key_to_index c")
    case None
    with Cons.prems Cons.IH [OF wf_zeroed, of c "after_malloc a"] show ?thesis
      by (auto simp: wf_update split: prod.splits)
  next
    case (Some m)
    show ?thesis
    proof (cases "key_to_index c < NUM_CHILD")
      case True
      with Some Cons.prems have "wf_node m" by (rule_tac wf_child)
      from Cons.IH [OF this, of a] Some Cons.prems show ?thesis
        by (auto simp: wf_update split: prod.splits)
    next
      case False
      with Cons.prems have "(child nd)[key_to_index c := x] = child nd" for x
        by (simp add: wf_length list_update_beyond)
      with Some Cons.prems show ?thesis
        by (auto simp: wf_fields split: prod.splits)
    qed
  qed
qed

lemma wf_store_at:
  assumes "\<And>m. wf_node m \<Longrightarrow> wf_node (f m)"
  shows "wf_node nd \<Longrightarrow> wf_node (store_at p f nd)"
proof (induction p arbitrary: nd)
  case Nil
  then show ?case by (simp add: assms)
next
  case (Cons c cs)
  show ?case
  proof (cases "child nd ! key_to_index c")
    case None
    with Cons.prems show ?thesis by simp
  next
    case (Some m)
    show ?thesis
    proof (cases "key_to_index c < NUM_CHILD")
      case True
      with Some Cons.prems have "wf_node m" by (rule_tac wf_child)
      from Cons.IH [OF this] Some Cons.prems show ?thesis
        by (simp add: wf_update)
    next
      case False
      with Cons.prems have "(child nd)[key_to_index c := x] = child nd" for x
        by (simp add: wf_length list_update_beyond)
      with Some Cons.prems show ?thesis
        by (simp add: wf_fields)
    qed
  qed
qed

lemma wf_prune: "wf_node nd \<Longrightarrow> wf_node (prune nd p)"
proof (induction p arbitrary: nd)
  case Nil
  then show ?case by simp
next
  case (Cons c cs)
  show ?case
  proof (cases "child nd ! key_to_index c")
    case None
    with Cons.prems show ?thesis by simp
  next
    case (Some m)
    show ?thesis
    proof (cases "key_to_index c < NUM_CHILD")
      case True
      with Some Cons.prems have "wf_node m" by (rule_tac wf_child)
      from Cons.IH [OF this] Some Cons.prems show ?thesis
        by (simp add: wf_update wf_clear_slot)
    next
      case False
      with Cons.prems have "(child nd)[key_to_index c := x] = child nd" for x
        by (simp add: wf_length list_update_beyond)
      with Some Cons.prems show ?thesis
        by (simp add: wf_fields wf_clear_slot)
    qed
  qed
qed

lemma lookup_zeroed: "key_permitted k \<Longrightarrow> lookup_nodes (zeroed c) k = None"
  by (cases k) (auto simp: zeroed_def key_permitted_Cons dest: key_to_index_less)

lemma nth_slot_update:
  assumes "wf_node nd" "letter c" "letter c'"
  shows "(child nd)[key_to_index c := x] ! key_to_index c'
         = (if c' = c then x else child nd ! key_to_index c')"
proof (cases "c' = c")
  case True
  with assms show ?thesis
    by (simp add: wf_length key_to_index_less)
next
  case False
  with assms have "key_to_index c' \<noteq> key_to_index c"
    by (auto dest: key_to_index_inj)
  with False show ?thesis by simp
qed

lemma mallocs_succeed_Suc:
  "mallocs_succeed a (Suc n) \<Longrightarrow> malloc_ok a \<and> mallocs_succeed (after_malloc a) n \<and> mallocs_succeed a n"
  by (cases a) (auto simp: mallocs_succeed_def malloc_ok_def after_malloc_def)

lemma add_nodes_succeeds: "mallocs_succeed a (length k) \<Longrightarrow> fst (add_nodes nd k v a)"
proof (induction k arbitrary: nd a)
  case Nil
  then show ?case by simp
next
  case (Cons c cs)
  from Cons.prems have "malloc_ok a" "mallocs_succeed (after_malloc a) (length cs)"
    "mallocs_succeed a (length cs)"
    using mallocs_succeed_Suc [of a "length cs"] by simp_all
  with Cons.IH show ?case
    by (auto split: option.splits prod.splits) (metis fst_conv)+
qed

lemma lookup_add_nodes:
  assumes "wf_node nd" "key_permitted k" "key_permitted k'"
  shows "lookup_nodes (snd (add_nodes nd k v a)) k'
         = (if k' = k \<and> fst (add_nodes nd k v a) then Some v else lookup_nodes nd k')"
  using assms
proof (induction k arbitrary: nd k' a)
  case Nil
  then show ?case by (cases k') simp_all
next
  case (Cons c cs)
  from Cons.prems have c: "letter c" and cs: "key_permitted cs"
    by (simp_all add: key_permitted_Cons)
  show ?case
  proof (cases k')
    case Nil
    then show ?thesis by (simp split: option.splits prod.splits)
  next
    case k': (Cons c' cs')
    with Cons.prems have c': "letter c'" and cs': "key_permitted cs'"
      by (simp_all add: key_permitted_Cons)
    show ?thesis
    proof (cases "child nd ! key_to_index c")
      case None
      show ?thesis
      proof (cases "malloc_ok a")
        case False
        with None show ?thesis by simp
      next
        case True
        obtain ok new where r: "add_nodes (zeroed c) cs v (after_malloc a) = (ok, new)"
          by (cases "add_nodes (zeroed c) cs v (after_malloc a)")
        from Cons.IH [OF wf_zeroed cs cs', of c "after_malloc a"] r
        have "lookup_nodes new cs' = (if cs' = cs \<and> ok then Some v else None)"
          by (simp add: lookup_zeroed cs')
        with None True r k' Cons.prems(1) c c' show ?thesis
          by (auto simp: nth_slot_update)
      qed
    next
      case (Some m)
      with Cons.prems(1) c have wfm: "wf_node m"
        by (auto intro: wf_child key_to_index_less)
      obtain ok new where r: "add_nodes m cs v a = (ok, new)"
        by (cases "add_nodes m cs v a")
      from Cons.IH [OF wfm cs cs', of a] r
      have "lookup_nodes new cs' = (if cs' = cs \<and> ok then Some v else lookup_nodes m cs')"
        by simp
      with Some r k' Cons.prems(1) c c' show ?thesis
        by (auto simp: nth_slot_update)
    qed
  qed
qed

lemma lookup_store_at_clear_value:
  assumes "wf_node nd" "key_permitted k" "key_permitted k'" "node_at nd k \<noteq> None"
  shows "lookup_nodes (store_at k clear_value nd) k'
         = (if k' = k then None else lookup_nodes nd k')"
  using assms
proof (induction k arbitrary: nd k')
  case Nil
  then show ?case by (cases k') (simp_all add: clear_value_def)
next
  case (Cons c cs)
  from Cons.prems have c: "letter c" and cs: "key_permitted cs"
    by (simp_all add: key_permitted_Cons)
  from Cons.prems(4) obtain m where m: "child nd ! key_to_index c = Some m"
    and at: "node_at m cs \<noteq> None"
    by (auto split: option.splits)
  with Cons.prems(1) c have wfm: "wf_node m"
    by (auto intro: wf_child key_to_index_less)
  show ?case
  proof (cases k')
    case Nil
    with m show ?thesis by simp
  next
    case k': (Cons c' cs')
    with Cons.prems have c': "letter c'" and cs': "key_permitted cs'"
      by (simp_all add: key_permitted_Cons)
    from Cons.IH [OF wfm cs cs' at] m k' Cons.prems(1) c c' show ?thesis
      by (auto simp: nth_slot_update)
  qed
qed

lemma in_slots: "letter c \<Longrightarrow> child nd ! key_to_index c = Some m \<Longrightarrow> key_to_index c \<in> slots nd"
  by (simp add: slots_def key_to_index_less)

lemma chain_below_cut:
  assumes "node_at nd (c # cs) = Some t" "\<not> node_has_children (Some t)"
    "\<not> lb_inside nd (c # cs)" "child nd ! key_to_index c = Some m"
  shows "chain m cs"
  using assms
proof (induction cs arbitrary: nd c m)
  case Nil
  then show ?case by simp
next
  case (Cons c' cs')
  from Cons.prems(1,4) obtain m' where m': "child m ! key_to_index c' = Some m'"
    and at: "node_at m (c' # cs') = Some t"
    by (auto split: option.splits)
  from Cons.prems(3,4) have nlb: "\<not> load_bearing m" and ni: "\<not> lb_inside m (c' # cs')"
    by simp_all
  from Cons.IH [OF at Cons.prems(2) ni m'] nlb m' show ?case by simp
qed

lemma chain_lookup:
  assumes "wf_node m" "chain m r" "key_permitted r" "key_permitted r'" "r' \<noteq> r"
  shows "lookup_nodes m r' = None"
  using assms
proof (induction r arbitrary: m r')
  case Nil
  then obtain c' cs' where r': "r' = c' # cs'" by (cases r') auto
  with Nil.prems have "key_to_index c' \<notin> slots m" "key_to_index c' < NUM_CHILD"
    by (simp_all add: has_children_iff key_to_index_less)
  then have "child m ! key_to_index c' = None" by (simp add: slots_def)
  with r' show ?case by simp
next
  case (Cons c cs)
  from Cons.prems(2) obtain m' where m': "child m ! key_to_index c = Some m'"
    and ch: "chain m' cs" and nlb: "\<not> load_bearing m"
    by (auto split: option.splits)
  from Cons.prems(3) have c: "letter c" and cs: "key_permitted cs" by simp_all
  from Cons.prems(1) m' c have wfm': "wf_node m'"
    by (auto intro: wf_child key_to_index_less)
  show ?case
  proof (cases r')
    case Nil
    with nlb show ?thesis by (simp add: load_bearing_def)
  next
    case r': (Cons c' cs')
    with Cons.prems(4) have c': "letter c'" and cs': "key_permitted cs'" by simp_all
    show ?thesis
    proof (cases "c' = c")
      case True
      with r' Cons.prems(5) have "cs' \<noteq> cs" by simp
      from Cons.IH [OF wfm' ch cs cs' this] True m' r' show ?thesis by simp
    next
      case False
      have "child m ! key_to_index c' = None"
      proof (rule ccontr)
        assume "child m ! key_to_index c' \<noteq> None"
        then have "key_to_index c' \<in> slots m"
          using c' by (auto simp: in_slots)
        moreover have "key_to_index c \<in> slots m" using c m' by (rule in_slots)
        ultimately have "key_to_index c' = key_to_index c"
          using nlb by (auto simp: load_bearing_def intro: single_slot)
        with c c' False show False by (auto dest: key_to_index_inj)
      qed
      with r' show ?thesis by simp
    qed
  qed
qed

lemma lb_inside_nonempty: "lb_inside nd (c # cs) \<Longrightarrow> cs \<noteq> []"
  by (cases cs) auto

lemma lookup_clear_slot:
  assumes "wf_node nd" "letter c" "key_permitted k'"
  shows "lookup_nodes (clear_slot (key_to_index c) nd) k'
         = (case k' of [] \<Rightarrow> lookup_nodes nd []
            | c' # cs' \<Rightarrow> if c' = c then None else lookup_nodes nd k')"
  using assms by (cases k') (auto simp: clear_slot_def nth_slot_update)

lemma lookup_prune:
  assumes "wf_node nd" "key_permitted k" "key_permitted k'" "node_at nd k = Some t"
    "\<not> node_has_children (Some t)" "k \<noteq> []"
  shows "lookup_nodes (prune nd k) k' = (if k' = k then None else lookup_nodes nd k')"
  using assms
proof (induction k arbitrary: nd k')
  case Nil
  then show ?case by simp
next
  case (Cons c cs)
  from Cons.prems(2) have c: "letter c" and cs: "key_permitted cs" by simp_all
  from Cons.prems(4) obtain m where m: "child nd ! key_to_index c = Some m"
    and at: "node_at m cs = Some t"
    by (auto split: option.splits)
  from Cons.prems(1) m c have wfm: "wf_node m"
    by (auto intro: wf_child key_to_index_less)
  show ?case
  proof (cases "lb_inside nd (c # cs)")
    case True
    then have csne: "cs \<noteq> []" by (rule lb_inside_nonempty)
    show ?thesis
    proof (cases k')
      case Nil
      with True m show ?thesis by simp
    next
      case k': (Cons c' cs')
      with Cons.prems(3) have c': "letter c'" and cs': "key_permitted cs'" by simp_all
      from Cons.IH [OF wfm cs cs' at Cons.prems(5) csne] True m k' Cons.prems(1) c c'
      show ?thesis by (auto simp: nth_slot_update)
    qed
  next
    case False
    from Cons.prems(4,5) False m have ch: "chain m cs" by (rule chain_below_cut)
    show ?thesis
    proof (cases k')
      case Nil
      with False m show ?thesis by (simp add: clear_slot_def)
    next
      case k': (Cons c' cs')
      with Cons.prems(3) have c': "letter c'" and cs': "key_permitted cs'" by simp_all
      have "lookup_nodes m cs' = None" if "cs' \<noteq> cs"
        using wfm ch cs cs' that by (rule chain_lookup)
      with False m k' Cons.prems(1) c c' show ?thesis
        by (auto simp: clear_slot_def nth_slot_update)
    qed
  qed
qed

lemma lookup_nodes_node_at:
  "lookup_nodes nd k = (case node_at nd k of None \<Rightarrow> None
     | Some m \<Rightarrow> if has_value m then Some (val m) else None)"
  by (induction k arbitrary: nd) (auto split: option.splits)

lemma delete_fails:
  assumes "lookup_nodes (trie_child t) k = None"
  shows "delete_from_trie t k a = Inr (False, t, [])"
proof (cases "delete_walk k 0 (int (length k)) (walk0 t)")
  case None
  then show ?thesis by (simp add: delete_from_trie_def walk0_def)
next
  case (Some w)
  then have "node_at (trie_child t) k = Some (node w)"
    using delete_walk_node [of k 0 "int (length k)" "walk0 t"] by (simp add: walk0_def)
  with assms have "\<not> has_value (node w)"
    by (simp add: lookup_nodes_node_at split: if_splits)
  with Some show ?thesis by (simp add: delete_from_trie_def walk0_def)
qed

lemma delete_refused:
  assumes "\<not> malloc_ok a"
  shows "delete_from_trie t k a = Inr (False, t, [])"
  using assms by (simp add: delete_from_trie_def)

lemma delete_clears:
  assumes "key_permitted k" "malloc_ok a" "node_at (trie_child t) k = Some m" "has_value m"
    "node_has_children (Some m)"
  shows "delete_from_trie t k a = Inr (True, Trie (store_at k clear_value (trie_child t)), [])"
proof -
  from assms(3) obtain w where w: "delete_walk k 0 (int (length k)) (walk0 t) = Some w"
    using delete_walk_None [of k 0 "int (length k)" "walk0 t"] by (auto simp: walk0_def)
  then have "node w = m"
    using delete_walk_node [of k 0 "int (length k)" "walk0 t"] assms(3) by (simp add: walk0_def)
  with w assms show ?thesis by (simp add: delete_from_trie_def walk0_def)
qed

lemma delete_prunes:
  assumes "key_permitted k" "k \<noteq> []" "malloc_ok a" "node_at (trie_child t) k = Some m"
    "has_value m" "\<not> node_has_children (Some m)"
  shows "\<exists>l. delete_from_trie t k a =
           Inr (True, Trie (prune (trie_child t) k),
                freed_nodes (path_nodes (trie_child t) k) (int (length k)) l) \<and>
           - 1 \<le> l \<and> (\<not> lb_inside (trie_child t) k \<longrightarrow> l = - 1)"
proof -
  from assms(4) obtain w where w: "delete_walk k 0 (int (length k)) (walk0 t) = Some w"
    using delete_walk_None [of k 0 "int (length k)" "walk0 t"] by (auto simp: walk0_def)
  then have nw: "node w = m"
    using delete_walk_node [of k 0 "int (length k)" "walk0 t"] assms(4) by (simp add: walk0_def)
  have ns: "nodes_to_be_deleted w = path_nodes (trie_child t) k"
    using delete_walk_nodes [of k 0 "int (length k)" "walk0 t"] w assms(4) by (simp add: walk0_def)
  have n: "int (length k) = 0 + int (length k)" by simp
  note cut = delete_walk_cut [OF w n assms(2)]
  obtain c cs where k: "k = c # cs" using assms(2) by (cases k) auto
  from assms(4) k obtain m1 where m1: "child (trie_child t) ! key_to_index c = Some m1"
    by (auto split: option.splits)
  show ?thesis
  proof (cases "lb_inside (trie_child t) k")
    case True
    with cut obtain s where l: "0 \<le> index_of_last_node_with_value w"
      and s: "starting_index_being_freed w = Some s"
      and st: "store_at (take (nat (index_of_last_node_with_value w) + 1) k) (clear_slot s) (trie_child t)
               = prune (trie_child t) k"
      by (auto simp: walk0_def)
    with w nw ns assms True show ?thesis
      by (intro exI [of _ "index_of_last_node_with_value w"])
        (simp add: delete_from_trie_def walk0_def [symmetric] Let_def)
  next
    case False
    with cut have l: "index_of_last_node_with_value w = - 1"
      and s: "starting_index_being_freed w = Some (key_to_index (hd k))"
      by (auto simp: walk0_def)
    from False k m1 have "prune (trie_child t) k = clear_slot (key_to_index (hd k)) (trie_child t)"
      by simp
    with l s w nw ns assms False show ?thesis
      by (intro exI [of _ "- 1"])
        (simp add: delete_from_trie_def walk0_def [symmetric] Let_def)
  qed
qed

lemma live_iff: "live nd = ((has_value nd \<or> node_has_children (Some nd)) \<and> below nd)"
  by (cases nd) (simp add: below_def)

declare live.simps [simp del]

lemma no_dead_leaf_below: "no_dead_leaf t = below (trie_child t)"
  by (simp add: no_dead_leaf_def)

lemma below_iff:
  "wf_node nd \<Longrightarrow> below nd = (\<forall>i<NUM_CHILD. \<forall>m. child nd ! i = Some m \<longrightarrow> live m)"
  by (auto simp: below_def all_set_conv_all_nth wf_length split: option.splits)

lemma below_child:
  "wf_node nd \<Longrightarrow> below nd \<Longrightarrow> letter c \<Longrightarrow> child nd ! key_to_index c = Some m \<Longrightarrow> live m"
  using key_to_index_less [of c] by (auto simp: below_iff)

lemma slots_fields [simp]: "slots (Node cs k v h) = {i. i < NUM_CHILD \<and> cs ! i \<noteq> None}"
  by (simp add: slots_def)

lemma has_children_fields:
  "node_has_children (Some (Node (child nd) k v h)) = node_has_children (Some nd)"
  by (simp add: has_children_iff slots_def)

lemma below_fields: "below (Node (child nd) k v h) = below nd"
  by (simp add: below_def)

lemma has_children_update:
  "wf_node nd \<Longrightarrow> i < NUM_CHILD \<Longrightarrow> node_has_children (Some (Node ((child nd)[i := Some m]) k v h))"
  by (auto simp: has_children_iff wf_length intro!: exI [of _ i])

lemma below_update:
  assumes "wf_node nd" "below nd" "live m"
  shows "below (Node ((child nd)[i := Some m]) k v h)"
proof -
  have "set ((child nd)[i := Some m]) \<subseteq> insert (Some m) (set (child nd))"
    by (rule set_update_subset_insert)
  with assms(2,3) show ?thesis
    by (auto simp: below_def split: option.splits)
qed

lemma below_clear_slot: "below nd \<Longrightarrow> below (clear_slot s nd)"
proof -
  assume b: "below nd"
  have "set ((child nd)[s := None]) \<subseteq> insert None (set (child nd))"
    by (rule set_update_subset_insert)
  with b show ?thesis
    by (auto simp: below_def clear_slot_def split: option.splits)
qed

lemma below_zeroed: "below (zeroed c)"
  by (simp add: below_def zeroed_def)

lemma live_add_nodes:
  assumes "wf_node nd" "below nd" "key_permitted k" "fst (add_nodes nd k v a)"
  shows "live (snd (add_nodes nd k v a))"
  using assms
proof (induction k arbitrary: nd a)
  case Nil
  then show ?case by (simp add: live_iff below_fields)
next
  case (Cons c cs)
  from Cons.prems(3) have c: "letter c" and cs: "key_permitted cs" by simp_all
  show ?case
  proof (cases "child nd ! key_to_index c")
    case None
    with Cons.prems(4) have ok: "malloc_ok a"
      and f: "fst (add_nodes (zeroed c) cs v (after_malloc a))"
      by (auto split: if_splits prod.splits)
    have "live (snd (add_nodes (zeroed c) cs v (after_malloc a)))"
      using wf_zeroed below_zeroed cs f by (rule Cons.IH)
    with None ok Cons.prems(1,2) c show ?thesis
      by (auto simp: live_iff [of "Node x y z u" for x y z u] has_children_update below_update
          key_to_index_less split: prod.splits)
  next
    case (Some m)
    with Cons.prems(4) have f: "fst (add_nodes m cs v a)"
      by (auto split: prod.splits)
    from Some Cons.prems(1,2) c have "wf_node m" "live m"
      by (auto intro: wf_child key_to_index_less below_child)
    then have "live (snd (add_nodes m cs v a))"
      using cs f by (intro Cons.IH) (simp_all add: live_iff)
    with Some Cons.prems(1,2) c show ?thesis
      by (auto simp: live_iff [of "Node x y z u" for x y z u] has_children_update below_update
          key_to_index_less split: prod.splits)
  qed
qed

lemma live_store_at_clear_value:
  assumes "wf_node nd" "live nd" "key_permitted k" "node_at nd k = Some t"
    "node_has_children (Some t)"
  shows "live (store_at k clear_value nd)"
  using assms
proof (induction k arbitrary: nd)
  case Nil
  then have "below nd" "node_has_children (Some nd)" by (simp_all add: live_iff)
  then show ?case
    by (simp add: live_iff clear_value_def has_children_fields below_fields)
next
  case (Cons c cs)
  from Cons.prems(3) have c: "letter c" and cs: "key_permitted cs" by simp_all
  from Cons.prems(4) obtain m where m: "child nd ! key_to_index c = Some m"
    and at: "node_at m cs = Some t"
    by (auto split: option.splits)
  from Cons.prems(2) have b: "below nd" by (simp add: live_iff)
  with Cons.prems(1) c m have "wf_node m" "live m"
    by (auto intro: wf_child key_to_index_less below_child)
  then have "live (store_at cs clear_value m)"
    using cs at Cons.prems(5) by (rule Cons.IH)
  with m Cons.prems(1) b c show ?case
    by (simp add: live_iff [of "Node x y z u" for x y z u] has_children_update below_update
        key_to_index_less)
qed

lemma below_store_at_clear_value:
  assumes "wf_node nd" "below nd" "key_permitted k" "node_at nd k = Some t"
    "node_has_children (Some t)"
  shows "below (store_at k clear_value nd)"
proof (cases k)
  case Nil
  with assms(2) show ?thesis by (simp add: clear_value_def below_fields)
next
  case (Cons c cs)
  with assms(3) have c: "letter c" and cs: "key_permitted cs" by simp_all
  from assms(4) Cons obtain m where m: "child nd ! key_to_index c = Some m"
    and at: "node_at m cs = Some t"
    by (auto split: option.splits)
  with assms(1,2) c have "wf_node m" "live m"
    by (auto intro: wf_child key_to_index_less below_child)
  then have "live (store_at cs clear_value m)"
    using cs at assms(5) by (rule live_store_at_clear_value)
  with m assms(1,2) Cons show ?thesis
    by (simp add: below_update)
qed

lemma live_prune:
  assumes "wf_node nd" "below nd" "key_permitted k" "node_at nd k = Some t" "k \<noteq> []"
  shows "below (prune nd k) \<and>
         (load_bearing nd \<or> lb_inside nd k \<longrightarrow>
            has_value (prune nd k) \<or> node_has_children (Some (prune nd k)))"
  using assms
proof (induction k arbitrary: nd)
  case Nil
  then show ?case by simp
next
  case (Cons c cs)
  from Cons.prems(3) have c: "letter c" and cs: "key_permitted cs" by simp_all
  from Cons.prems(4) obtain m where m: "child nd ! key_to_index c = Some m"
    and at: "node_at m cs = Some t"
    by (auto split: option.splits)
  with Cons.prems(1,2) c have wfm: "wf_node m" and lm: "live m"
    by (auto intro: wf_child key_to_index_less below_child)
  show ?case
  proof (cases "lb_inside nd (c # cs)")
    case True
    then obtain c' cs' where cs': "cs = c' # cs'" by (cases cs) auto
    then have csne: "cs \<noteq> []" by simp
    from True m cs' have "load_bearing m \<or> lb_inside m cs" by simp
    moreover from lm have "below m" by (simp add: live_iff)
    note Cons.IH [OF wfm this cs at csne]
    ultimately have "live (prune m cs)" by (simp add: live_iff)
    with True m Cons.prems(1,2) c show ?thesis
      by (simp add: has_children_update below_update key_to_index_less)
  next
    case False
    with m Cons.prems(2) show ?thesis
      by (auto simp: below_clear_slot load_bearing_def multiple_clear_slot)
         (simp add: clear_slot_def)
  qed
qed

section \<open>The operations on a trie\<close>

lemma wf_empty_trie: "wf_trie empty_trie"
  by (simp add: wf_trie_def empty_trie_def wf_zeroed)

lemma no_dead_leaf_empty_trie: "no_dead_leaf empty_trie"
  by (simp add: no_dead_leaf_below empty_trie_def below_zeroed)

lemma lookup_empty_trie: "lookup_in_trie empty_trie k = None"
  by (cases k) (auto simp: lookup_in_trie_def empty_trie_def zeroed_def dest: key_to_index_less)

lemma create_trie_Some: "create_trie a = Some t \<Longrightarrow> t = empty_trie"
  by (simp add: create_trie_def empty_trie_def split: if_splits)

lemma wf_add_to_trie: "wf_trie t \<Longrightarrow> wf_trie (snd (add_to_trie k v t a))"
  using wf_add_nodes [of "trie_child t" k v a]
  by (auto simp: wf_trie_def add_to_trie_def split: prod.splits)

lemma add_to_trie_succeeds:
  "key_permitted k \<Longrightarrow> mallocs_succeed a (length k) \<Longrightarrow> fst (add_to_trie k v t a)"
  using add_nodes_succeeds [of a k "trie_child t" v]
  by (auto simp: add_to_trie_def split: prod.splits)

lemma lookup_add_to_trie:
  assumes "wf_trie t"
  shows "lookup_in_trie (snd (add_to_trie k v t a)) k'
         = (if k' = k \<and> fst (add_to_trie k v t a) then Some v else lookup_in_trie t k')"
proof (cases "key_permitted k \<and> key_permitted k'")
  case True
  with assms lookup_add_nodes [of "trie_child t" k k' v a] show ?thesis
    by (auto simp: wf_trie_def add_to_trie_def lookup_in_trie_def split: prod.splits)
next
  case False
  then show ?thesis
    by (auto simp: add_to_trie_def lookup_in_trie_def split: prod.splits)
qed

lemma no_dead_leaf_add_to_trie:
  assumes "wf_trie t" "no_dead_leaf t" "fst (add_to_trie k v t a) \<or> \<not> key_permitted k"
  shows "no_dead_leaf (snd (add_to_trie k v t a))"
proof (cases "key_permitted k")
  case True
  with assms(3) have "fst (add_nodes (trie_child t) k v a)"
    by (auto simp: add_to_trie_def split: prod.splits)
  with assms(1,2) True have "live (snd (add_nodes (trie_child t) k v a))"
    by (intro live_add_nodes) (auto simp: wf_trie_def no_dead_leaf_below)
  with True show ?thesis
    by (auto simp: add_to_trie_def no_dead_leaf_below live_iff split: prod.splits)
next
  case False
  with assms show ?thesis by (simp add: add_to_trie_def)
qed

lemma no_dead_leaf_add_granted:
  assumes "wf_trie t" "no_dead_leaf t" "mallocs_succeed a (length k)"
  shows "no_dead_leaf (snd (add_to_trie k v t a))"
  using assms add_to_trie_succeeds [of k a v t]
  by (intro no_dead_leaf_add_to_trie) auto

text \<open>What \<^const>\<open>delete_from_trie\<close> does with a valid key.\<close>

lemma delete_cases:
  assumes "wf_trie t" "valid_key k"
  obtains (refused) "delete_from_trie t k a = Inr (False, t, [])"
      "\<not> malloc_ok a \<or> lookup_in_trie t k = None"
  | (deleted) t' freed where "delete_from_trie t k a = Inr (True, t', freed)"
      "malloc_ok a" "lookup_in_trie t k \<noteq> None" "wf_trie t'"
      "\<And>k'. lookup_in_trie t' k' = (if k' = k then None else lookup_in_trie t k')"
      "no_dead_leaf t \<Longrightarrow> no_dead_leaf t'"
proof -
  from assms(2) have k: "key_permitted k" "k \<noteq> []" by (simp_all add: valid_key_def)
  from assms(1) have wf: "wf_node (trie_child t)" by (simp add: wf_trie_def)
  show ?thesis
  proof (cases "malloc_ok a \<and> lookup_nodes (trie_child t) k \<noteq> None")
    case False
    then have "delete_from_trie t k a = Inr (False, t, [])"
      using delete_refused [of a t k] delete_fails [of t k a] by auto
    with False k show ?thesis
      by (intro refused) (auto simp: lookup_in_trie_def)
  next
    case True
    then obtain m where m: "node_at (trie_child t) k = Some m" "has_value m"
      by (auto simp: lookup_nodes_node_at split: option.splits if_splits)
    from True k have stored: "lookup_in_trie t k \<noteq> None" by (simp add: lookup_in_trie_def)
    show ?thesis
    proof (cases "node_has_children (Some m)")
      case ch: True
      let ?r = "store_at k clear_value (trie_child t)"
      from k True m ch have d: "delete_from_trie t k a = Inr (True, Trie ?r, [])"
        by (intro delete_clears) simp_all
      have "lookup_in_trie (Trie ?r) k' = (if k' = k then None else lookup_in_trie t k')" for k'
        using lookup_store_at_clear_value [of "trie_child t" k k'] wf k m
        by (auto simp: lookup_in_trie_def)
      moreover have "wf_trie (Trie ?r)"
        using wf by (simp add: wf_trie_def wf_store_at wf_clear_value)
      moreover have "no_dead_leaf (Trie ?r)" if "no_dead_leaf t"
        using that wf k m ch below_store_at_clear_value [of "trie_child t" k m]
        by (simp add: no_dead_leaf_below)
      ultimately show ?thesis using d True stored by (intro deleted) auto
    next
      case nch: False
      let ?r = "prune (trie_child t) k"
      from delete_prunes [OF k(1) k(2) _ m nch, of a] True
      obtain l where d: "delete_from_trie t k a =
          Inr (True, Trie ?r, freed_nodes (path_nodes (trie_child t) k) (int (length k)) l)"
        by auto
      have "lookup_in_trie (Trie ?r) k' = (if k' = k then None else lookup_in_trie t k')" for k'
        using lookup_prune [of "trie_child t" k k' m] wf k m nch
        by (auto simp: lookup_in_trie_def)
      moreover have "wf_trie (Trie ?r)"
        using wf by (simp add: wf_trie_def wf_prune)
      moreover have "no_dead_leaf (Trie ?r)" if "no_dead_leaf t"
        using that wf k m live_prune [of "trie_child t" k m]
        by (simp add: no_dead_leaf_below)
      ultimately show ?thesis using d True stored by (intro deleted) auto
    qed
  qed
qed

lemma lookup_node_at_take:
  "lookup_nodes nd k \<noteq> None \<Longrightarrow> node_at nd (take n k) \<noteq> None"
proof (induction k arbitrary: nd n)
  case Nil
  then show ?case by simp
next
  case (Cons c cs)
  then show ?case by (cases n) (auto split: option.splits)
qed

lemma wf_abc_trie: "wf_trie abc_trie"
  by (simp add: abc_trie_def wf_add_to_trie wf_empty_trie)

lemma wf_prefix_trie: "wf_trie prefix_trie"
  by (simp add: prefix_trie_def wf_add_to_trie wf_empty_trie)

lemma valid_key_examples:
  "valid_key ''a''" "valid_key ''aa''" "valid_key ''ab''" "valid_key ''ac''" "valid_key ''abc''"
  by (simp_all add: valid_key_def letter_def)

lemma lookup_abc_trie:
  "lookup_in_trie abc_trie ''aa'' = Some 1"
  "lookup_in_trie abc_trie ''ab'' = Some 2"
  "lookup_in_trie abc_trie ''ac'' = Some 3"
  by code_simp+

section \<open>The claims\<close>

lemma lookup_prefix_trie:
  "lookup_in_trie prefix_trie ''ab'' = Some 1"
  "lookup_in_trie prefix_trie ''abc'' = Some 2"
  by code_simp+

text \<open>
  C1. Deleting a valid key that is stored leaves every other key as it was: the call
  returns, and every key other than the deleted one is looked up with the same result
  (found or not, and the value) before and after. The nodes on the path of every other
  stored key are still in place, so a node shared with a sibling survives and a longer
  key of which the deleted key is a prefix stays retrievable. This holds whatever
  \<^verbatim>\<open>malloc\<close> does during the call.
\<close>

theorem delete_leaves_other_keys:
  assumes "wf_trie t" "valid_key k" "lookup_in_trie t k \<noteq> None"
  shows "\<exists>ok t' freed. delete_from_trie t k a = Inr (ok, t', freed) \<and>
           (\<forall>k'. k' \<noteq> k \<longrightarrow> lookup_in_trie t' k' = lookup_in_trie t k') \<and>
           (\<forall>k' n. k' \<noteq> k \<longrightarrow> lookup_in_trie t k' \<noteq> None \<longrightarrow>
                node_at (trie_child t') (take n k') \<noteq> None)"
proof -
  have nodes: "node_at (trie_child t') (take n k') \<noteq> None"
    if "lookup_in_trie t' k' = lookup_in_trie t k'" "lookup_in_trie t k' \<noteq> None" for t' k' n
    using that by (intro lookup_node_at_take) (auto simp: lookup_in_trie_def split: if_splits)
  from assms(1,2) show ?thesis
  proof (cases rule: delete_cases [where a = a])
    case refused
    with nodes show ?thesis by auto
  next
    case (deleted t' freed)
    have "lookup_in_trie t' k' = lookup_in_trie t k'" if "k' \<noteq> k" for k'
      using deleted(5) [of k'] that by simp
    with deleted(1) nodes show ?thesis by auto
  qed
qed

theorem delete_leaves_other_keys_witness:
  "wf_trie abc_trie \<and> valid_key ''ab'' \<and> lookup_in_trie abc_trie ''ab'' \<noteq> None \<and>
   (\<exists>ok t' freed. delete_from_trie abc_trie ''ab'' None = Inr (ok, t', freed) \<and>
      lookup_in_trie t' ''aa'' = Some 1 \<and> lookup_in_trie t' ''ac'' = Some 3 \<and>
      node_at (trie_child t') ''a'' \<noteq> None) \<and>
   wf_trie prefix_trie \<and> lookup_in_trie prefix_trie ''ab'' \<noteq> None \<and>
   (\<exists>ok t' freed. delete_from_trie prefix_trie ''ab'' None = Inr (ok, t', freed) \<and>
      lookup_in_trie t' ''abc'' = Some 2)"
proof -
  have h: "wf_trie abc_trie" "valid_key ''ab''" "lookup_in_trie abc_trie ''ab'' \<noteq> None"
    by (simp_all add: wf_abc_trie valid_key_examples lookup_abc_trie)
  have p: "lookup_in_trie prefix_trie ''ab'' \<noteq> None" "lookup_in_trie prefix_trie ''abc'' = Some 2"
    by (simp_all add: lookup_prefix_trie)
  from delete_leaves_other_keys [OF h, of None] obtain ok t' freed
    where d: "delete_from_trie abc_trie ''ab'' None = Inr (ok, t', freed)"
      and l: "\<forall>k'. k' \<noteq> ''ab'' \<longrightarrow> lookup_in_trie t' k' = lookup_in_trie abc_trie k'"
      and n: "\<forall>k' n. k' \<noteq> ''ab'' \<longrightarrow> lookup_in_trie abc_trie k' \<noteq> None \<longrightarrow>
                node_at (trie_child t') (take n k') \<noteq> None"
    by (elim exE conjE) (rule that)
  from l have aa: "lookup_in_trie t' ''aa'' = Some 1" and ac: "lookup_in_trie t' ''ac'' = Some 3"
    by (simp_all add: lookup_abc_trie)
  have "take (Suc 0) ''aa'' = ''a''" by simp
  moreover have "lookup_in_trie abc_trie ''aa'' \<noteq> None" by (simp add: lookup_abc_trie)
  moreover have "''aa'' \<noteq> ''ab''" by simp
  ultimately have a: "node_at (trie_child t') ''a'' \<noteq> None" using n by metis
  from d aa ac a
  have abc: "\<exists>ok t' freed. delete_from_trie abc_trie ''ab'' None = Inr (ok, t', freed) \<and>
      lookup_in_trie t' ''aa'' = Some 1 \<and> lookup_in_trie t' ''ac'' = Some 3 \<and>
      node_at (trie_child t') ''a'' \<noteq> None"
    by (intro exI conjI)
  from delete_leaves_other_keys [OF wf_prefix_trie h(2) p(1), of None] obtain ok2 t2 freed2
    where d2: "delete_from_trie prefix_trie ''ab'' None = Inr (ok2, t2, freed2)"
      and l2: "\<forall>k'. k' \<noteq> ''ab'' \<longrightarrow> lookup_in_trie t2 k' = lookup_in_trie prefix_trie k'"
    by (elim exE conjE) (rule that)
  from l2 p(2) have "lookup_in_trie t2 ''abc'' = Some 2" by simp
  with d2
  have pre: "\<exists>ok t' freed. delete_from_trie prefix_trie ''ab'' None = Inr (ok, t', freed) \<and>
      lookup_in_trie t' ''abc'' = Some 2"
    by (intro exI conjI)
  from h abc wf_prefix_trie p(1) pre show ?thesis by (intro conjI)
qed

lemma add_nodes_existing: "node_at nd k \<noteq> None \<Longrightarrow> fst (add_nodes nd k v a)"
proof (induction k arbitrary: nd)
  case Nil
  then show ?case by simp
next
  case (Cons c cs)
  from Cons.prems obtain m where m: "child nd ! key_to_index c = Some m" "node_at m cs \<noteq> None"
    by (auto split: option.splits)
  from Cons.IH [OF m(2)] m(1) show ?case
    by (cases "add_nodes m cs v a") simp
qed

lemma add_to_trie_existing:
  assumes "key_permitted k" "lookup_in_trie t k \<noteq> None"
  shows "fst (add_to_trie k v t a)"
proof -
  from assms have "node_at (trie_child t) k \<noteq> None"
    by (auto simp: lookup_in_trie_def lookup_nodes_node_at split: option.splits)
  then have "fst (add_nodes (trie_child t) k v a)" by (rule add_nodes_existing)
  with assms(1) show ?thesis by (auto simp: add_to_trie_def split: prod.splits)
qed

text \<open>
  C2, as amended. For every store, every valid key \<open>k\<close> and every value \<open>v\<close>, the
  insertion succeeds when \<^verbatim>\<open>malloc\<close> grants the requests of the call, of which there
  is at most one for each character of \<open>k\<close>. Whenever it succeeds, a lookup of \<open>k\<close>
  returns \<open>v\<close>, whatever was stored under \<open>k\<close> before, and a later insertion of \<open>v2\<close>
  under the same key, which requests no memory, succeeds and makes the lookup return
  \<open>v2\<close>. When it fails, every lookup returns what it returned before the call.
\<close>

theorem insert_then_lookup:
  assumes "wf_trie t" "valid_key k"
  shows "(mallocs_succeed a (length k) \<longrightarrow> fst (add_to_trie k v t a)) \<and>
         (fst (add_to_trie k v t a) \<longrightarrow>
            lookup_in_trie (snd (add_to_trie k v t a)) k = Some v \<and>
            (\<forall>v2 a2. fst (add_to_trie k v2 (snd (add_to_trie k v t a)) a2) \<and>
               lookup_in_trie (snd (add_to_trie k v2 (snd (add_to_trie k v t a)) a2)) k
                 = Some v2)) \<and>
         (\<not> fst (add_to_trie k v t a) \<longrightarrow>
            (\<forall>k'. lookup_in_trie (snd (add_to_trie k v t a)) k' = lookup_in_trie t k'))"
proof -
  let ?t = "snd (add_to_trie k v t a)"
  from assms(2) have k: "key_permitted k" by (simp add: valid_key_def)
  have granted: "fst (add_to_trie k v t a)" if "mallocs_succeed a (length k)"
    using k that by (rule add_to_trie_succeeds)
  have wf: "wf_trie ?t" using assms(1) by (rule wf_add_to_trie)
  have stored: "lookup_in_trie ?t k = Some v \<and>
      (\<forall>v2 a2. fst (add_to_trie k v2 ?t a2) \<and>
         lookup_in_trie (snd (add_to_trie k v2 ?t a2)) k = Some v2)"
    if ok: "fst (add_to_trie k v t a)"
  proof -
    from assms(1) ok have l: "lookup_in_trie ?t k = Some v" by (simp add: lookup_add_to_trie)
    have "fst (add_to_trie k v2 ?t a2) \<and> lookup_in_trie (snd (add_to_trie k v2 ?t a2)) k = Some v2"
      for v2 a2
    proof -
      from k l have "fst (add_to_trie k v2 ?t a2)" by (intro add_to_trie_existing) simp_all
      with wf show ?thesis by (simp add: lookup_add_to_trie)
    qed
    with l show ?thesis by blast
  qed
  have "lookup_in_trie ?t k' = lookup_in_trie t k'" if "\<not> fst (add_to_trie k v t a)" for k'
    using assms(1) that by (simp add: lookup_add_to_trie)
  with granted stored show ?thesis by blast
qed

theorem insert_then_lookup_witness:
  "wf_trie abc_trie \<and> valid_key ''ab'' \<and> mallocs_succeed (Some 2) (length ''ab'') \<and>
   fst (add_to_trie ''ab'' 7 abc_trie (Some 2)) \<and>
   lookup_in_trie (snd (add_to_trie ''ab'' 7 abc_trie (Some 2))) ''ab'' = Some 7 \<and>
   (\<forall>v2 a2. fst (add_to_trie ''ab'' v2 (snd (add_to_trie ''ab'' 7 abc_trie (Some 2))) a2) \<and>
      lookup_in_trie (snd (add_to_trie ''ab'' v2 (snd (add_to_trie ''ab'' 7 abc_trie (Some 2))) a2))
        ''ab'' = Some v2) \<and>
   \<not> fst (add_to_trie ''aaak'' 10 abc_trie (Some 1)) \<and>
   (\<forall>k'. lookup_in_trie (snd (add_to_trie ''aaak'' 10 abc_trie (Some 1))) k'
         = lookup_in_trie abc_trie k')"
proof -
  have h: "wf_trie abc_trie" "valid_key ''ab''" "mallocs_succeed (Some 2) (length ''ab'')"
    "valid_key ''aaak''"
    by (simp_all add: wf_abc_trie valid_key_examples mallocs_succeed_def valid_key_def letter_def)
  have f: "\<not> fst (add_to_trie ''aaak'' 10 abc_trie (Some 1))" by code_simp
  from insert_then_lookup [OF h(1,2), of "Some 2" 7] h(3)
  have "fst (add_to_trie ''ab'' 7 abc_trie (Some 2)) \<and>
   lookup_in_trie (snd (add_to_trie ''ab'' 7 abc_trie (Some 2))) ''ab'' = Some 7 \<and>
   (\<forall>v2 a2. fst (add_to_trie ''ab'' v2 (snd (add_to_trie ''ab'' 7 abc_trie (Some 2))) a2) \<and>
      lookup_in_trie (snd (add_to_trie ''ab'' v2 (snd (add_to_trie ''ab'' 7 abc_trie (Some 2))) a2))
        ''ab'' = Some v2)" by blast
  moreover from insert_then_lookup [OF h(1,4), of "Some 1" 10] f
  have "\<forall>k'. lookup_in_trie (snd (add_to_trie ''aaak'' 10 abc_trie (Some 1))) k'
         = lookup_in_trie abc_trie k'" by blast
  ultimately show ?thesis using h f by blast
qed

text \<open>The claim as it was stated fails when \<^verbatim>\<open>malloc\<close> refuses the node for a
  character of the key: the insertion of the valid key \<open>a\<close> into the empty trie then
  returns \<^verbatim>\<open>FALSE\<close>, and the key is not found afterwards.\<close>

theorem insert_refused_counterexample:
  "wf_trie empty_trie \<and> valid_key ''a'' \<and>
   \<not> fst (add_to_trie ''a'' 1 empty_trie (Some 0)) \<and>
   lookup_in_trie (snd (add_to_trie ''a'' 1 empty_trie (Some 0))) ''a'' = None"
  by (simp add: wf_empty_trie valid_key_examples) code_simp

text \<open>
  C3, as amended. For every store and every valid key \<open>k\<close> that is stored, the deletion
  returns \<^verbatim>\<open>TRUE\<close> when \<^verbatim>\<open>malloc\<close> grants its one request, the array
  \<^verbatim>\<open>nodes_to_be_deleted\<close>; a lookup of \<open>k\<close> then finds nothing, and an insertion of
  \<open>k\<close> with a new value whose requests are granted makes the lookup return that value.
  When \<^verbatim>\<open>malloc\<close> refuses the array, the deletion returns \<^verbatim>\<open>FALSE\<close> and the store is
  as it was.
\<close>

theorem delete_then_lookup:
  assumes "wf_trie t" "valid_key k" "lookup_in_trie t k \<noteq> None"
  shows "(malloc_ok a \<longrightarrow>
           (\<exists>t' freed. delete_from_trie t k a = Inr (True, t', freed) \<and>
              lookup_in_trie t' k = None \<and>
              (\<forall>v a'. mallocs_succeed a' (length k) \<longrightarrow>
                 fst (add_to_trie k v t' a') \<and>
                 lookup_in_trie (snd (add_to_trie k v t' a')) k = Some v))) \<and>
         (\<not> malloc_ok a \<longrightarrow> delete_from_trie t k a = Inr (False, t, []))"
  using assms(1,2)
proof (cases rule: delete_cases [where a = a])
  case refused
  with assms(3) show ?thesis by auto
next
  case (deleted t' freed)
  from assms(2) have k: "key_permitted k" by (simp add: valid_key_def)
  have "fst (add_to_trie k v t' a') \<and> lookup_in_trie (snd (add_to_trie k v t' a')) k = Some v"
    if "mallocs_succeed a' (length k)" for v a'
  proof -
    from k that have "fst (add_to_trie k v t' a')" by (rule add_to_trie_succeeds)
    with deleted(4) show ?thesis by (simp add: lookup_add_to_trie)
  qed
  with deleted(1,2) deleted(5) [of k] show ?thesis by auto
qed

theorem delete_then_lookup_witness:
  "wf_trie abc_trie \<and> valid_key ''ab'' \<and> lookup_in_trie abc_trie ''ab'' \<noteq> None \<and>
   malloc_ok None \<and>
   (\<exists>t' freed. delete_from_trie abc_trie ''ab'' None = Inr (True, t', freed) \<and>
      lookup_in_trie t' ''ab'' = None \<and>
      (\<forall>v a'. mallocs_succeed a' (length ''ab'') \<longrightarrow>
         fst (add_to_trie ''ab'' v t' a') \<and>
         lookup_in_trie (snd (add_to_trie ''ab'' v t' a')) ''ab'' = Some v)) \<and>
   \<not> malloc_ok (Some 0) \<and>
   delete_from_trie abc_trie ''ab'' (Some 0) = Inr (False, abc_trie, [])"
proof -
  have h: "wf_trie abc_trie" "valid_key ''ab''" "lookup_in_trie abc_trie ''ab'' \<noteq> None"
    by (simp_all add: wf_abc_trie valid_key_examples lookup_abc_trie)
  have m: "malloc_ok None" "\<not> malloc_ok (Some 0)" by (simp_all add: malloc_ok_def)
  from delete_then_lookup [OF h, of None] delete_then_lookup [OF h, of "Some 0"] h m
  show ?thesis by simp
qed

text \<open>The claim as it was stated fails when \<^verbatim>\<open>malloc\<close> refuses the array
  \<^verbatim>\<open>nodes_to_be_deleted\<close>: the deletion of the stored key \<open>ab\<close> then returns
  \<^verbatim>\<open>FALSE\<close> and the key is still found.\<close>

theorem delete_refused_counterexample:
  "wf_trie abc_trie \<and> valid_key ''ab'' \<and> lookup_in_trie abc_trie ''ab'' = Some 2 \<and>
   delete_from_trie abc_trie ''ab'' (Some 0) = Inr (False, abc_trie, [])"
  by (simp add: wf_abc_trie valid_key_examples lookup_abc_trie delete_refused malloc_ok_def)

text \<open>
  C4, as amended. Every operation rejects a key that holds a character outside
  \<^verbatim>\<open>'a'\<close> to \<^verbatim>\<open>'z'\<close>: the insertion and the deletion return \<^verbatim>\<open>FALSE\<close>, the lookup
  finds nothing, and the store is the one that was passed in. The empty key is not
  among the rejected keys: \<^const>\<open>key_permitted\<close> accepts it, and its insertion returns
  \<^verbatim>\<open>TRUE\<close> and writes the value into the root node, where a lookup of the empty
  key finds it.
\<close>

theorem invalid_key_rejected:
  shows "((\<exists>c\<in>set k. \<not> letter c) \<longrightarrow>
            add_to_trie k v t a = (False, t) \<and>
            lookup_in_trie t k = None \<and>
            delete_from_trie t k a = Inr (False, t, [])) \<and>
         key_permitted [] \<and>
         add_to_trie [] v t a
           = (True, Trie (Node (child (trie_child t)) (key (trie_child t)) v True)) \<and>
         lookup_in_trie (snd (add_to_trie [] v t a)) [] = Some v"
proof -
  have "add_to_trie k v t a = (False, t) \<and> lookup_in_trie t k = None \<and>
        delete_from_trie t k a = Inr (False, t, [])" if "\<exists>c\<in>set k. \<not> letter c"
  proof -
    from that have "\<not> key_permitted k" by (simp add: key_permitted_iff)
    then show ?thesis
      by (simp add: add_to_trie_def lookup_in_trie_def delete_from_trie_def)
  qed
  then show ?thesis
    by (simp add: add_to_trie_def lookup_in_trie_def)
qed

theorem invalid_key_rejected_witness:
  "\<not> letter CHR ''A'' \<and> CHR ''A'' \<in> set ''Ab'' \<and>
   add_to_trie ''Ab'' 1 abc_trie None = (False, abc_trie) \<and>
   lookup_in_trie abc_trie ''Ab'' = None \<and>
   delete_from_trie abc_trie ''Ab'' None = Inr (False, abc_trie, [])"
proof -
  have h: "\<not> letter CHR ''A''" "CHR ''A'' \<in> set ''Ab''"
    by (simp_all add: letter_def)
  then have "\<exists>c\<in>set ''Ab''. \<not> letter c" by blast
  with invalid_key_rejected [of "''Ab''" 1 abc_trie None] h show ?thesis by blast
qed

text \<open>The claim as it was stated fails for the empty key, which \<^const>\<open>key_permitted\<close>
  lets through since its loop finds no character to refuse: the insertion returns
  \<^verbatim>\<open>TRUE\<close> and has written the value into the root node, where a lookup of the empty
  key finds it.\<close>

theorem empty_key_counterexample:
  "key_permitted '''' \<and>
   add_to_trie '''' 1 empty_trie None
     = (True, Trie (Node (replicate NUM_CHILD None) (CHR 0x00) 1 True)) \<and>
   snd (add_to_trie '''' 1 empty_trie None) \<noteq> empty_trie \<and>
   lookup_in_trie (snd (add_to_trie '''' 1 empty_trie None)) '''' = Some 1"
  by (simp add: add_to_trie_def empty_trie_def zeroed_def lookup_in_trie_def)

lemma delete_abc_trie:
  "\<exists>t' freed. delete_from_trie abc_trie ''ab'' None = Inr (True, t', freed)"
  using wf_abc_trie valid_key_examples(3)
proof (cases rule: delete_cases [where a = None])
  case refused
  then show ?thesis by (simp add: malloc_ok_def lookup_abc_trie)
next
  case (deleted t' freed)
  then show ?thesis by blast
qed

text \<open>
  C5. A deletion of a valid key that is not stored returns \<^verbatim>\<open>FALSE\<close> and leaves the
  store as it was, both when a node on the path of the key is missing and when the
  path is there and its last node has no value; these are the two ways in which a
  lookup of the key finds nothing. Hence after a deletion that returned \<^verbatim>\<open>TRUE\<close>, a
  second deletion of the same key returns \<^verbatim>\<open>FALSE\<close> and leaves the store as the first
  one left it.
\<close>

theorem failed_delete_changes_nothing:
  assumes "valid_key k"
  shows "(node_at (trie_child t) k = None \<or>
            (\<exists>m. node_at (trie_child t) k = Some m \<and> \<not> has_value m) \<longrightarrow>
          lookup_in_trie t k = None \<and> delete_from_trie t k a = Inr (False, t, [])) \<and>
         (lookup_in_trie t k = None \<longrightarrow> delete_from_trie t k a = Inr (False, t, [])) \<and>
         (\<forall>t' freed a'. wf_trie t \<and> delete_from_trie t k a = Inr (True, t', freed) \<longrightarrow>
            delete_from_trie t' k a' = Inr (False, t', []))"
proof -
  from assms have k: "key_permitted k" by (simp add: valid_key_def)
  have absent: "delete_from_trie t k a = Inr (False, t, [])" if "lookup_in_trie t k = None"
    for t a
    using that k by (intro delete_fails) (simp add: lookup_in_trie_def)
  have "lookup_in_trie t k = None"
    if "node_at (trie_child t) k = None \<or>
        (\<exists>m. node_at (trie_child t) k = Some m \<and> \<not> has_value m)"
    using that by (auto simp: lookup_in_trie_def lookup_nodes_node_at)
  moreover have "delete_from_trie t' k a' = Inr (False, t', [])"
    if "wf_trie t" "delete_from_trie t k a = Inr (True, t', freed)" for t' freed a'
    using that(1) assms
  proof (cases rule: delete_cases [where a = a])
    case refused
    with that(2) show ?thesis by simp
  next
    case (deleted t'' freed')
    with that(2) have "lookup_in_trie t' k = None" by simp
    then show ?thesis by (rule absent)
  qed
  ultimately show ?thesis using absent by blast
qed

theorem failed_delete_changes_nothing_witness:
  "valid_key ''a'' \<and> valid_key ''b'' \<and> valid_key ''ab'' \<and>
   node_at (trie_child prefix_trie) ''b'' = None \<and>
   delete_from_trie prefix_trie ''b'' None = Inr (False, prefix_trie, []) \<and>
   (\<exists>m. node_at (trie_child prefix_trie) ''abc'' = Some m) \<and>
   (\<exists>m. node_at (trie_child prefix_trie) ''a'' = Some m \<and> \<not> has_value m) \<and>
   lookup_in_trie prefix_trie ''a'' = None \<and>
   delete_from_trie prefix_trie ''a'' None = Inr (False, prefix_trie, []) \<and>
   wf_trie abc_trie \<and>
   (\<exists>t' freed. delete_from_trie abc_trie ''ab'' None = Inr (True, t', freed) \<and>
      delete_from_trie t' ''ab'' None = Inr (False, t', []))"
proof -
  have v: "valid_key ''a''" "valid_key ''b''" "valid_key ''ab''"
    by (simp_all add: valid_key_def letter_def)
  have b: "node_at (trie_child prefix_trie) ''b'' = None" by code_simp
  have c: "node_at (trie_child prefix_trie) ''abc'' \<noteq> None" by code_simp
  have na: "node_at (trie_child prefix_trie) ''a'' \<noteq> None" by code_simp
  have la: "lookup_in_trie prefix_trie ''a'' = None" by code_simp
  with v(1) have "lookup_nodes (trie_child prefix_trie) ''a'' = None"
    by (simp only: lookup_in_trie_def valid_key_def split: if_splits) simp
  with na have a: "\<exists>m. node_at (trie_child prefix_trie) ''a'' = Some m \<and> \<not> has_value m"
    by (simp only: lookup_nodes_node_at split: option.splits if_splits) auto
  from failed_delete_changes_nothing [OF v(2), of prefix_trie None] b
  have db: "delete_from_trie prefix_trie ''b'' None = Inr (False, prefix_trie, [])" by simp
  from failed_delete_changes_nothing [OF v(1), of prefix_trie None] a
  have da: "delete_from_trie prefix_trie ''a'' None = Inr (False, prefix_trie, [])" by blast
  from delete_abc_trie obtain t' freed
    where d: "delete_from_trie abc_trie ''ab'' None = Inr (True, t', freed)" by blast
  with failed_delete_changes_nothing [OF v(3), of abc_trie None] wf_abc_trie
  have "delete_from_trie t' ''ab'' None = Inr (False, t', [])" by blast
  with d have dd: "\<exists>t' freed. delete_from_trie abc_trie ''ab'' None = Inr (True, t', freed) \<and>
      delete_from_trie t' ''ab'' None = Inr (False, t', [])" by blast
  from c have c': "\<exists>m. node_at (trie_child prefix_trie) ''abc'' = Some m" by auto
  from v b db c' a la da wf_abc_trie dd show ?thesis by blast
qed

lemma no_dead_leaf_delete_empty_key:
  assumes "no_dead_leaf t" "delete_from_trie t [] a = Inr (ok, t', freed)"
  shows "no_dead_leaf t'"
proof -
  have "t' = t \<or> t' = Trie (clear_value (trie_child t))"
    using assms(2)
    by (auto simp: delete_from_trie_def Let_def split: if_splits option.splits)
  with assms(1) show ?thesis
    by (auto simp: no_dead_leaf_below clear_value_def below_fields)
qed

lemma no_dead_leaf_delete:
  assumes "wf_trie t" "no_dead_leaf t" "delete_from_trie t k a = Inr (ok, t', freed)"
  shows "no_dead_leaf t'"
proof (cases "valid_key k")
  case True
  with assms(1) show ?thesis
  proof (cases rule: delete_cases [where a = a])
    case refused
    with assms(2,3) show ?thesis by simp
  next
    case (deleted t'' freed')
    with assms(2,3) show ?thesis by simp
  qed
next
  case False
  show ?thesis
  proof (cases "k = []")
    case True
    with assms(2,3) show ?thesis by (auto intro: no_dead_leaf_delete_empty_key)
  next
    case nonempty: False
    with False have "\<not> key_permitted k" by (simp add: valid_key_def)
    with assms(2,3) show ?thesis by (simp add: delete_from_trie_def)
  qed
qed

lemma no_dead_leaf_abc_trie: "no_dead_leaf abc_trie"
  by (simp add: abc_trie_def no_dead_leaf_add_granted wf_add_to_trie wf_empty_trie
      no_dead_leaf_empty_trie mallocs_succeed_def)

lemma linked_zeroed: "key_permitted k \<Longrightarrow> linked (zeroed c) k = 0"
  by (cases k) (simp_all add: zeroed_def key_to_index_less)

lemma add_nodes_linked:
  assumes "wf_node nd" "key_permitted k"
  shows "fst (add_nodes nd k v a) = mallocs_succeed a (length k - linked nd k) \<and>
         (\<not> fst (add_nodes nd k v a) \<longrightarrow>
            (\<exists>n. a = Some n \<and> linked (snd (add_nodes nd k v a)) k = linked nd k + n))"
  using assms
proof (induction k arbitrary: nd a)
  case Nil
  then show ?case by (simp add: mallocs_succeed_def split: option.splits)
next
  case (Cons c cs)
  from Cons.prems(2) have c: "letter c" and cs: "key_permitted cs" by simp_all
  from Cons.prems(1) c have len: "key_to_index c < length (child nd)"
    by (simp add: wf_length key_to_index_less)
  show ?case
  proof (cases "child nd ! key_to_index c")
    case None
    show ?thesis
    proof (cases "malloc_ok a")
      case False
      with None show ?thesis by (simp add: malloc_ok_def mallocs_succeed_def)
    next
      case True
      obtain ok new where r: "add_nodes (zeroed c) cs v (after_malloc a) = (ok, new)"
        by (cases "add_nodes (zeroed c) cs v (after_malloc a)")
      from Cons.IH [of "zeroed c" "after_malloc a", OF wf_zeroed cs] r cs
      have ih: "ok = mallocs_succeed (after_malloc a) (length cs)"
        "\<not> ok \<longrightarrow> (\<exists>n. after_malloc a = Some n \<and> linked new cs = n)"
        by (simp_all add: linked_zeroed)
      from True have "mallocs_succeed a (Suc (length cs)) = mallocs_succeed (after_malloc a) (length cs)"
        by (auto simp: malloc_ok_def mallocs_succeed_def after_malloc_def split: option.splits)
      moreover have "\<exists>n. a = Some n \<and> Suc (linked new cs) = n" if "\<not> ok"
      proof -
        from that ih(2) obtain n where "after_malloc a = Some n" "linked new cs = n" by blast
        with True show ?thesis
          by (cases a) (auto simp: malloc_ok_def after_malloc_def)
      qed
      moreover from None True r
      have "add_nodes nd (c # cs) v a
            = (ok, Node ((child nd)[key_to_index c := Some new]) (key nd) (val nd) (has_value nd))"
        by simp
      moreover from None have "linked nd (c # cs) = 0" by simp
      moreover from len
      have "linked (Node ((child nd)[key_to_index c := Some new]) (key nd) (val nd) (has_value nd))
              (c # cs) = Suc (linked new cs)"
        by simp
      ultimately show ?thesis using ih(1) by simp
    qed
  next
    case (Some nx)
    with Cons.prems(1) c have wf: "wf_node nx"
      using wf_child [of nd "key_to_index c" nx] by (simp add: key_to_index_less)
    obtain ok new where r: "add_nodes nx cs v a = (ok, new)"
      by (cases "add_nodes nx cs v a")
    from Cons.IH [of nx a, OF wf cs] r
    have "ok = mallocs_succeed a (length cs - linked nx cs)"
      "\<not> ok \<longrightarrow> (\<exists>n. a = Some n \<and> linked new cs = linked nx cs + n)"
      by simp_all
    moreover from Some r
    have "add_nodes nd (c # cs) v a
          = (ok, Node ((child nd)[key_to_index c := Some new]) (key nd) (val nd) (has_value nd))"
      by simp
    moreover from Some have "linked nd (c # cs) = Suc (linked nx cs)" by simp
    moreover from len
    have "linked (Node ((child nd)[key_to_index c := Some new]) (key nd) (val nd) (has_value nd))
            (c # cs) = Suc (linked new cs)"
      by simp
    ultimately show ?thesis by simp
  qed
qed

text \<open>
  C6, as amended. On a store in which no node but the root is a leaf without a value,
  the same holds after every insertion that returns \<^verbatim>\<open>TRUE\<close>, as it does when
  \<^verbatim>\<open>malloc\<close> grants its requests, after every insertion whose key is refused, and
  after every deletion that returns, successful or not, and the deletion of a key
  that is not empty does return. A lookup has no store to
  return: \<^const>\<open>lookup_in_trie\<close> is a function of the store it reads. The insertion
  of a permitted key that fails, which it does only when \<^verbatim>\<open>malloc\<close> refuses a node,
  is left out: the insertion of a permitted key returns \<^verbatim>\<open>TRUE\<close> exactly when
  \<^verbatim>\<open>malloc\<close> grants a node for every character of the key that has none on its path,
  and when it returns \<^verbatim>\<open>FALSE\<close> the nodes that were granted before the refusal are
  linked on the path of the key in the store it leaves.
\<close>

theorem invariant_preserved:
  assumes "wf_trie t" "no_dead_leaf t"
  shows "(fst (add_to_trie k v t a) \<or> \<not> key_permitted k \<longrightarrow>
            no_dead_leaf (snd (add_to_trie k v t a))) \<and>
         (mallocs_succeed a (length k) \<longrightarrow> no_dead_leaf (snd (add_to_trie k v t a))) \<and>
         (\<forall>ok t' freed. delete_from_trie t k a = Inr (ok, t', freed) \<longrightarrow> no_dead_leaf t') \<and>
         (k \<noteq> [] \<longrightarrow> (\<exists>ok t' freed. delete_from_trie t k a = Inr (ok, t', freed))) \<and>
         (key_permitted k \<longrightarrow>
            fst (add_to_trie k v t a)
              = mallocs_succeed a (length k - linked (trie_child t) k) \<and>
            (\<not> fst (add_to_trie k v t a) \<longrightarrow>
               (\<exists>n. a = Some n \<and>
                  linked (trie_child (snd (add_to_trie k v t a))) k
                    = linked (trie_child t) k + n)))"
proof -
  have refusal: "fst (add_to_trie k v t a)
      = mallocs_succeed a (length k - linked (trie_child t) k) \<and>
    (\<not> fst (add_to_trie k v t a) \<longrightarrow>
       (\<exists>n. a = Some n \<and>
          linked (trie_child (snd (add_to_trie k v t a))) k = linked (trie_child t) k + n))"
    if "key_permitted k"
  proof -
    from assms(1) have "wf_node (trie_child t)" by (simp add: wf_trie_def)
    from add_nodes_linked [OF this that, of v a] that show ?thesis
      by (cases "add_nodes (trie_child t) k v a") (simp add: add_to_trie_def)
  qed
  have "\<exists>ok t' freed. delete_from_trie t k a = Inr (ok, t', freed)" if "k \<noteq> []"
  proof (cases "key_permitted k")
    case True
    with that have "valid_key k" by (simp add: valid_key_def)
    with assms(1) show ?thesis
      by (cases rule: delete_cases [where a = a]) (intro exI, assumption)+
  next
    case False
    then have "delete_from_trie t k a = Inr (False, t, [])"
      by (simp add: delete_from_trie_def)
    then show ?thesis by (intro exI)
  qed
  moreover note refusal
  ultimately show ?thesis
    using assms no_dead_leaf_add_to_trie [of t k v a] no_dead_leaf_add_granted [of t a k v]
      no_dead_leaf_delete [of t k a]
    by blast
qed

theorem invariant_preserved_witness:
  "wf_trie abc_trie \<and> no_dead_leaf abc_trie \<and> mallocs_succeed None (length ''aaak'') \<and>
   fst (add_to_trie ''aaak'' 10 abc_trie None) \<and>
   no_dead_leaf (snd (add_to_trie ''aaak'' 10 abc_trie None)) \<and>
   (\<exists>t' freed. delete_from_trie abc_trie ''ab'' None = Inr (True, t', freed) \<and>
      no_dead_leaf t') \<and>
   key_permitted ''aaak'' \<and>
   \<not> mallocs_succeed (Some 1) (length ''aaak'' - linked (trie_child abc_trie) ''aaak'') \<and>
   \<not> fst (add_to_trie ''aaak'' 10 abc_trie (Some 1)) \<and>
   linked (trie_child abc_trie) ''aaak'' = 2 \<and>
   linked (trie_child (snd (add_to_trie ''aaak'' 10 abc_trie (Some 1)))) ''aaak'' = 3"
proof -
  have m: "mallocs_succeed None (length ''aaak'')" by (simp add: mallocs_succeed_def)
  have f: "fst (add_to_trie ''aaak'' 10 abc_trie None)" by code_simp
  note w = invariant_preserved [OF wf_abc_trie no_dead_leaf_abc_trie]
  from w [of "''aaak''" 10 None] f
  have i: "no_dead_leaf (snd (add_to_trie ''aaak'' 10 abc_trie None))" by (elim conjE) simp
  from delete_abc_trie obtain t' freed
    where d: "delete_from_trie abc_trie ''ab'' None = Inr (True, t', freed)"
    by (elim exE) (rule that)
  from w [of "''ab''" 0 None]
  have "\<forall>ok t' freed. delete_from_trie abc_trie ''ab'' None = Inr (ok, t', freed) \<longrightarrow>
      no_dead_leaf t'" by (elim conjE)
  with d have "no_dead_leaf t'" by (elim allE impE)
  with d have "\<exists>t' freed. delete_from_trie abc_trie ''ab'' None = Inr (True, t', freed) \<and>
      no_dead_leaf t'" by (intro exI conjI)
  moreover have p: "key_permitted ''aaak''" by (simp add: letter_def)
  moreover have l: "linked (trie_child abc_trie) ''aaak'' = 2" by code_simp
  moreover from l
  have r: "\<not> mallocs_succeed (Some 1) (length ''aaak'' - linked (trie_child abc_trie) ''aaak'')"
    by (simp add: mallocs_succeed_def)
  moreover from w [of "''aaak''" 10 "Some 1", THEN conjunct2, THEN conjunct2, THEN conjunct2,
      THEN conjunct2, THEN mp, OF p]
  have g: "fst (add_to_trie ''aaak'' 10 abc_trie (Some 1))
      = mallocs_succeed (Some 1) (length ''aaak'' - linked (trie_child abc_trie) ''aaak'') \<and>
    (\<not> fst (add_to_trie ''aaak'' 10 abc_trie (Some 1)) \<longrightarrow>
       (\<exists>n. Some 1 = Some n \<and>
          linked (trie_child (snd (add_to_trie ''aaak'' 10 abc_trie (Some 1)))) ''aaak''
            = linked (trie_child abc_trie) ''aaak'' + n))"
    .
  from g r have n: "\<not> fst (add_to_trie ''aaak'' 10 abc_trie (Some 1))" by (elim conjE) simp
  with g l
  have "linked (trie_child (snd (add_to_trie ''aaak'' 10 abc_trie (Some 1)))) ''aaak'' = 3"
    by (elim conjE impE exE) simp_all
  ultimately show ?thesis
    using wf_abc_trie no_dead_leaf_abc_trie m f i n by (intro conjI)
qed

text \<open>The claim as it was stated fails for an insertion during which \<^verbatim>\<open>malloc\<close>
  grants one node and refuses the next: inserting \<open>ab\<close> into the empty trie then
  returns \<^verbatim>\<open>FALSE\<close> and leaves the node for \<open>a\<close> in place, a leaf without a value.\<close>

theorem failed_insert_counterexample:
  "wf_trie empty_trie \<and> no_dead_leaf empty_trie \<and> valid_key ''ab'' \<and>
   \<not> fst (add_to_trie ''ab'' 1 empty_trie (Some 1)) \<and>
   snd (add_to_trie ''ab'' 1 empty_trie (Some 1))
     = Trie (Node ((replicate NUM_CHILD None)[0 := Some (zeroed CHR ''a'')]) (CHR 0x00) 0 False) \<and>
   \<not> no_dead_leaf (snd (add_to_trie ''ab'' 1 empty_trie (Some 1)))"
proof -
  have "\<not> fst (add_to_trie ''ab'' 1 empty_trie (Some 1))" by code_simp
  moreover have "snd (add_to_trie ''ab'' 1 empty_trie (Some 1))
     = Trie (Node ((replicate NUM_CHILD None)[0 := Some (zeroed CHR ''a'')]) (CHR 0x00) 0 False)"
    by code_simp
  moreover have "\<not> no_dead_leaf (snd (add_to_trie ''ab'' 1 empty_trie (Some 1)))" by code_simp
  ultimately show ?thesis
    by (simp add: wf_empty_trie no_dead_leaf_empty_trie valid_key_examples)
qed

lemma node_at_add_nodes:
  assumes "wf_node nd" "key_permitted k" "key_permitted p" "node_at nd p = Some m"
  shows "\<exists>m'. node_at (snd (add_nodes nd k v a)) p = Some m' \<and> key m' = key m"
  using assms
proof (induction k arbitrary: nd p a m)
  case Nil
  then show ?case by (cases p) auto
next
  case (Cons c cs)
  from Cons.prems(2) have c: "letter c" and cs: "key_permitted cs" by simp_all
  show ?case
  proof (cases p)
    case Nil
    with Cons.prems(4) show ?thesis
      by (auto split: option.splits prod.splits)
  next
    case p: (Cons c' cs')
    with Cons.prems(3) have c': "letter c'" and cs': "key_permitted cs'" by simp_all
    from Cons.prems(4) p obtain n1 where n1: "child nd ! key_to_index c' = Some n1"
      and at: "node_at n1 cs' = Some m"
      by (auto split: option.splits)
    show ?thesis
    proof (cases "c' = c")
      case True
      with Cons.prems(1) c n1 have "wf_node n1"
        by (auto intro: wf_child key_to_index_less)
      from Cons.IH [OF this cs cs' at, of a] obtain m'
        where "node_at (snd (add_nodes n1 cs v a)) cs' = Some m'" "key m' = key m" by blast
      with True n1 p Cons.prems(1) c show ?thesis
        by (auto simp: nth_slot_update split: prod.splits)
    next
      case False
      with n1 at p Cons.prems(1) c c' show ?thesis
        by (auto simp: nth_slot_update split: option.splits prod.splits)
    qed
  qed
qed

text \<open>
  C9. An insertion removes and detaches nothing: every node that is in the trie before
  the call is in the trie after it, at the same path and for the same character, and
  every key other than the inserted one is looked up with the same result. This holds
  for every key and whatever \<^verbatim>\<open>malloc\<close> does during the call, whether the insertion
  succeeds or not.
\<close>

theorem insert_keeps_nodes_and_other_keys:
  assumes "wf_trie t"
  shows "(\<forall>p m. key_permitted p \<and> node_at (trie_child t) p = Some m \<longrightarrow>
            (\<exists>m'. node_at (trie_child (snd (add_to_trie k v t a))) p = Some m' \<and>
                   key m' = key m)) \<and>
         (\<forall>k'. k' \<noteq> k \<longrightarrow>
            lookup_in_trie (snd (add_to_trie k v t a)) k' = lookup_in_trie t k')"
proof -
  have "\<exists>m'. node_at (trie_child (snd (add_to_trie k v t a))) p = Some m' \<and> key m' = key m"
    if "key_permitted p" "node_at (trie_child t) p = Some m" for p m
  proof (cases "key_permitted k")
    case True
    with assms that node_at_add_nodes [of "trie_child t" k p m v a] show ?thesis
      by (auto simp: add_to_trie_def wf_trie_def split: prod.splits)
  next
    case False
    with that show ?thesis by (simp add: add_to_trie_def)
  qed
  with assms show ?thesis by (simp add: lookup_add_to_trie)
qed

theorem insert_keeps_nodes_and_other_keys_witness:
  "wf_trie abc_trie \<and> key_permitted ''ab'' \<and>
   (\<exists>m. node_at (trie_child abc_trie) ''ab'' = Some m \<and>
      (\<exists>m'. node_at (trie_child (snd (add_to_trie ''aaak'' 10 abc_trie None))) ''ab'' = Some m' \<and>
             key m' = key m)) \<and>
   ''ab'' \<noteq> ''aaak'' \<and>
   lookup_in_trie (snd (add_to_trie ''aaak'' 10 abc_trie None)) ''ab''
     = lookup_in_trie abc_trie ''ab''"
proof -
  have p: "key_permitted ''ab''" by (simp add: letter_def)
  have "node_at (trie_child abc_trie) ''ab'' \<noteq> None" by code_simp
  then obtain m where m: "node_at (trie_child abc_trie) ''ab'' = Some m" by auto
  note w = insert_keeps_nodes_and_other_keys [OF wf_abc_trie, of "''aaak''" 10 None]
  from w p m have "\<exists>m'. node_at (trie_child (snd (add_to_trie ''aaak'' 10 abc_trie None))) ''ab''
      = Some m' \<and> key m' = key m" by blast
  moreover from w have "lookup_in_trie (snd (add_to_trie ''aaak'' 10 abc_trie None)) ''ab''
     = lookup_in_trie abc_trie ''ab''" by simp
  ultimately show ?thesis using wf_abc_trie p m by auto
qed

lemma slots_single:
  "i < NUM_CHILD \<Longrightarrow> slots (Node ((replicate NUM_CHILD None)[i := Some x]) c v h) = {i}"
  by (auto simp: nth_list_update)

lemma child_zeroed: "letter c \<Longrightarrow> child (zeroed d) ! key_to_index c = None"
  by (simp add: zeroed_def key_to_index_less)

lemma add_nodes_zeroed:
  assumes "letter c" "malloc_ok a"
  shows "snd (add_nodes (zeroed d) (c # cs) v a)
         = Node ((replicate NUM_CHILD None)[key_to_index c := Some (snd (add_nodes (zeroed c) cs v (after_malloc a)))])
             d 0 False"
  using assms by (simp add: child_zeroed split: prod.splits) (simp add: zeroed_def)

lemma fresh_chain:
  assumes "key_permitted cs" "mallocs_succeed a (length cs)"
  shows "(\<exists>t. node_at (snd (add_nodes (zeroed c) cs v a)) cs = Some t \<and> has_value t \<and>
              \<not> node_has_children (Some t)) \<and>
         (cs \<noteq> [] \<longrightarrow> \<not> load_bearing (snd (add_nodes (zeroed c) cs v a))) \<and>
         \<not> lb_inside (snd (add_nodes (zeroed c) cs v a)) cs \<and>
         length (path_nodes (snd (add_nodes (zeroed c) cs v a)) cs) = length cs"
  using assms
proof (induction cs arbitrary: c a)
  case Nil
  then show ?case by (simp add: has_children_iff zeroed_def)
next
  case (Cons c1 cs1)
  from Cons.prems(1) have c1: "letter c1" and cs1: "key_permitted cs1" by simp_all
  from Cons.prems(2) have ok: "malloc_ok a" and a': "mallocs_succeed (after_malloc a) (length cs1)"
    using mallocs_succeed_Suc [of a "length cs1"] by simp_all
  let ?new1 = "snd (add_nodes (zeroed c1) cs1 v (after_malloc a))"
  let ?i = "key_to_index c1"
  let ?new = "Node ((replicate NUM_CHILD None)[?i := Some ?new1]) c 0 False"
  have new: "snd (add_nodes (zeroed c) (c1 # cs1) v a) = ?new"
    using c1 ok by (rule add_nodes_zeroed)
  have i: "?i < NUM_CHILD" using c1 by (rule key_to_index_less)
  then have ch: "child ?new ! ?i = Some ?new1" by simp
  note IH = Cons.IH [OF cs1 a', of c1]
  have "\<not> load_bearing ?new"
    using i by (simp add: load_bearing_def multiple_children_iff slots_single del: slots_fields)
  moreover have "\<not> lb_inside ?new (c1 # cs1)"
  proof (cases cs1)
    case Nil
    then show ?thesis by simp
  next
    case (Cons c2 cs2)
    with IH have "\<not> load_bearing ?new1" "\<not> lb_inside ?new1 (c2 # cs2)" by simp_all
    with Cons ch show ?thesis by simp
  qed
  moreover have "\<exists>t. node_at ?new (c1 # cs1) = Some t \<and> has_value t \<and> \<not> node_has_children (Some t)"
    using IH ch by simp
  moreover have "length (path_nodes ?new (c1 # cs1)) = length (c1 # cs1)"
    using IH ch by simp
  ultimately show ?case unfolding new by blast
qed

lemma replicate_update_same: "(replicate n x)[i := x] = replicate n x"
proof (induction n arbitrary: i)
  case 0
  then show ?case by simp
next
  case (Suc n)
  then show ?case by (cases i) simp_all
qed

lemma freed_nodes_all: "freed_nodes ns (int (length ns)) (- 1) = rev ns"
  by (simp add: freed_nodes_def rev_map [symmetric] map_nth)

lemma delete_single_key_trie:
  assumes "valid_key k" "mallocs_succeed a1 (length k)" "malloc_ok a"
  shows "delete_from_trie (snd (add_to_trie k v empty_trie a1)) k a
         = Inr (True, empty_trie,
                rev (path_nodes (trie_child (snd (add_to_trie k v empty_trie a1))) k)) \<and>
         length (path_nodes (trie_child (snd (add_to_trie k v empty_trie a1))) k) = length k"
proof -
  from assms(1) obtain c cs where k: "k = c # cs" and c: "letter c" and cs: "key_permitted cs"
    by (cases k) (auto simp: valid_key_def)
  from assms(1) have kp: "key_permitted k" "k \<noteq> []" by (simp_all add: valid_key_def)
  let ?r = "snd (add_nodes (zeroed (CHR 0x00)) k v a1)"
  have t1: "snd (add_to_trie k v empty_trie a1) = Trie ?r"
    using kp by (simp add: add_to_trie_def empty_trie_def split: prod.splits)
  note fc = fresh_chain [OF kp(1) assms(2), of "CHR 0x00" v]
  then obtain t where t: "node_at ?r k = Some t" "has_value t" "\<not> node_has_children (Some t)"
    by blast
  from fc have ni: "\<not> lb_inside ?r k" and len: "length (path_nodes ?r k) = length k"
    by simp_all
  from assms(2) k have ok: "malloc_ok a1" using mallocs_succeed_Suc [of a1 "length cs"] by simp
  have r: "?r = Node ((replicate NUM_CHILD None)[key_to_index c :=
              Some (snd (add_nodes (zeroed c) cs v (after_malloc a1)))]) (CHR 0x00) 0 False"
    unfolding k using c ok by (rule add_nodes_zeroed)
  have "child ?r ! key_to_index c \<noteq> None"
    using c by (subst r) (simp add: key_to_index_less)
  with ni k have "prune ?r k = clear_slot (key_to_index c) ?r"
    by (auto split: option.splits)
  also have "\<dots> = zeroed (CHR 0x00)"
    by (subst r) (simp add: clear_slot_def zeroed_def replicate_update_same)
  finally have pr: "prune ?r k = zeroed (CHR 0x00)" .
  from delete_prunes [OF kp assms(3), of "Trie ?r" t] t ni
  have "delete_from_trie (Trie ?r) k a
        = Inr (True, Trie (prune ?r k), freed_nodes (path_nodes ?r k) (int (length k)) (- 1))"
    by auto
  with pr len freed_nodes_all [of "path_nodes ?r k"] show ?thesis
    unfolding t1 by (simp add: empty_trie_def)
qed




lemma run_snoc:
  "run t (xs @ [x]) =
     (case run t xs of
        Inl f \<Rightarrow> Inl f
      | Inr (t', oks) \<Rightarrow>
          (case apply_op t' x of
             Inl f \<Rightarrow> Inl f
           | Inr (ok, t'') \<Rightarrow> Inr (t'', oks @ [ok])))"
  by (induction xs arbitrary: t) (auto split: sum.splits prod.splits)

lemma finite_map_snoc:
  "length oks = length ops \<Longrightarrow>
   finite_map (ops @ [x]) (oks @ [ok]) k = latest ((x, ok) # rev (zip ops oks)) k"
  by (simp add: finite_map_def)

text \<open>One call on a well-formed trie, with a valid key: it returns, the trie stays
  well-formed, and the lookups change as the updates of a finite map do.\<close>

lemma apply_op_refines:
  assumes "wf_trie t" "valid_key (op_key x)"
  shows "\<exists>ok t'. apply_op t x = Inr (ok, t') \<and> wf_trie t' \<and>
           (\<forall>k. lookup_in_trie t' k =
                (if ok \<and> op_key x = k then latest [(x, ok)] k else lookup_in_trie t k)) \<and>
           (case x of
              Insert k v a \<Rightarrow> mallocs_succeed a (length k) \<longrightarrow> ok
            | Delete k a \<Rightarrow> ok = (malloc_ok a \<and> lookup_in_trie t k \<noteq> None))"
proof (cases x)
  case (Insert k v a)
  have "apply_op t x = Inr (fst (add_to_trie k v t a), snd (add_to_trie k v t a))"
    by (simp add: Insert)
  moreover have "wf_trie (snd (add_to_trie k v t a))" using assms(1) by (rule wf_add_to_trie)
  moreover have "lookup_in_trie (snd (add_to_trie k v t a)) k' =
      (if fst (add_to_trie k v t a) \<and> op_key x = k'
       then latest [(x, fst (add_to_trie k v t a))] k' else lookup_in_trie t k')" for k'
    using assms(1) by (auto simp: Insert lookup_add_to_trie)
  moreover have "mallocs_succeed a (length k) \<longrightarrow> fst (add_to_trie k v t a)"
    using assms(2) by (auto simp: Insert valid_key_def intro: add_to_trie_succeeds)
  ultimately show ?thesis unfolding Insert op.case by blast
next
  case (Delete k a)
  from assms have "wf_trie t" "valid_key k" by (simp_all add: Delete)
  then show ?thesis
  proof (cases rule: delete_cases [where a = a])
    case refused
    then have "apply_op t x = Inr (False, t)" by (simp add: Delete)
    with assms(1) refused(2) show ?thesis
      by (intro exI [of _ False] exI [of _ t]) (auto simp: Delete)
  next
    case (deleted t' freed)
    then have "apply_op t x = Inr (True, t')" by (simp add: Delete)
    with deleted(2,3,4,5) show ?thesis
      by (intro exI [of _ True] exI [of _ t']) (simp add: Delete)
  qed
qed

lemma latest_Cons:
  "latest ((x, ok) # h) k = (if ok \<and> op_key x = k then latest [(x, ok)] k else latest h k)"
  by (cases x) auto

lemma run_refines:
  assumes "wf_trie t0" "\<forall>k. lookup_in_trie t0 k = None" "\<forall>x\<in>set ops. valid_key (op_key x)"
  shows "\<exists>t oks. run t0 ops = Inr (t, oks) \<and> length oks = length ops \<and> wf_trie t \<and>
           (\<forall>k. lookup_in_trie t k = finite_map ops oks k) \<and> answers_as_map ops oks"
  using assms(3)
proof (induction ops rule: rev_induct)
  case Nil
  with assms(1,2) show ?case by (simp add: finite_map_def answers_as_map_def)
next
  case (snoc x xs)
  then obtain t oks where r: "run t0 xs = Inr (t, oks)" "length oks = length xs" "wf_trie t"
    and l: "\<forall>k. lookup_in_trie t k = finite_map xs oks k"
    and f: "answers_as_map xs oks"
    by auto
  from snoc.prems have "valid_key (op_key x)" by simp
  with r(3) obtain ok t' where a: "apply_op t x = Inr (ok, t')" "wf_trie t'"
    and l': "\<forall>k. lookup_in_trie t' k =
                (if ok \<and> op_key x = k then latest [(x, ok)] k else lookup_in_trie t k)"
    and f': "case x of
              Insert k v a \<Rightarrow> mallocs_succeed a (length k) \<longrightarrow> ok
            | Delete k a \<Rightarrow> ok = (malloc_ok a \<and> lookup_in_trie t k \<noteq> None)"
    using apply_op_refines [of t x] by blast
  have "lookup_in_trie t' k = finite_map (xs @ [x]) (oks @ [ok]) k" for k
    using l l' r(2) by (simp add: finite_map_snoc latest_Cons [of x ok] finite_map_def)
  moreover have "answers_as_map (xs @ [x]) (oks @ [ok])"
    unfolding answers_as_map_def
  proof (intro allI impI)
    fix i assume "i < length (xs @ [x])"
    then consider "i < length xs" | "i = length xs" by fastforce
    then show "case (xs @ [x]) ! i of
          Insert k v a \<Rightarrow> mallocs_succeed a (length k) \<longrightarrow> (oks @ [ok]) ! i
        | Delete k a \<Rightarrow>
            (oks @ [ok]) ! i = (malloc_ok a \<and>
               finite_map (take i (xs @ [x])) (take i (oks @ [ok])) k \<noteq> None)"
    proof cases
      case 1
      with f r(2) show ?thesis
        by (auto simp: answers_as_map_def nth_append split: op.splits)
    next
      case 2
      with f' l r(2) show ?thesis
        by (simp add: nth_append split: op.splits)
    qed
  qed
  ultimately show ?case using r a by (simp add: run_snoc)
qed

text \<open>
  C10. From the trie that \<^verbatim>\<open>create_trie\<close> returns, every finite sequence of
  insertions and deletions with valid keys runs to its end, whatever \<^verbatim>\<open>malloc\<close> does
  during the calls, and the trie then answers every lookup as the finite map of the
  sequence does: with the value of the most recent insertion of the key that returned
  \<^verbatim>\<open>TRUE\<close>, unless a deletion of the key that returned \<^verbatim>\<open>TRUE\<close> came after it, and
  with nothing otherwise. With the empty sequence, every lookup on the new trie finds
  nothing.
\<close>

theorem trie_behaves_as_finite_map:
  assumes "create_trie a0 = Some t0" "\<forall>x\<in>set ops. valid_key (op_key x)"
  shows "\<exists>t oks. run t0 ops = Inr (t, oks) \<and> length oks = length ops \<and>
           (\<forall>k. lookup_in_trie t k = finite_map ops oks k) \<and>
           answers_as_map ops oks \<and>
           (\<forall>k. lookup_in_trie t0 k = None)"
proof -
  from assms(1) have t0: "t0 = empty_trie" by (rule create_trie_Some)
  then have "wf_trie t0" "\<forall>k. lookup_in_trie t0 k = None"
    by (simp_all add: wf_empty_trie lookup_empty_trie)
  with run_refines [OF this assms(2)] show ?thesis by blast
qed

lemma main_c_valid: "list_all (\<lambda>x. valid_key (op_key x)) main_c_ops"
  by (simp add: main_c_ops_def valid_key_def letter_def)

lemma main_c_inserted:
  "list_all2 inserted main_c_ops [True, True, True, True, True, True, True, False, True]"
  by (simp add: main_c_ops_def)

lemma main_c_run:
  "run empty_trie main_c_ops
   = Inr (empty_trie, [True, True, True, True, True, True, True, False, True])"
  by code_simp

theorem trie_behaves_as_finite_map_witness:
  "create_trie None = Some empty_trie \<and>
   list_all (\<lambda>x. valid_key (op_key x)) main_c_ops \<and>
   run empty_trie main_c_ops
     = Inr (empty_trie, [True, True, True, True, True, True, True, False, True]) \<and>
   (\<forall>k. lookup_in_trie empty_trie k
        = finite_map main_c_ops [True, True, True, True, True, True, True, False, True] k) \<and>
   answers_as_map main_c_ops [True, True, True, True, True, True, True, False, True]"
proof -
  have c: "create_trie None = Some empty_trie"
    by (simp add: create_trie_def malloc_ok_def after_malloc_def empty_trie_def)
  have v: "\<forall>x\<in>set main_c_ops. valid_key (op_key x)"
    using main_c_valid by (simp add: list_all_iff)
  from trie_behaves_as_finite_map [OF c v] main_c_run c main_c_valid show ?thesis by auto
qed

lemma letter_of_index:
  assumes "i < NUM_CHILD"
  shows "\<exists>c. letter c \<and> key_to_index c = i"
proof -
  let ?c = "char_of (97 + i)"
  from assms have "(97 + i) mod 256 = 97 + i" by (simp add: NUM_CHILD_def)
  then have o: "(of_char ?c :: nat) = 97 + i" by simp
  with assms have l: "letter ?c" by (simp add: letter_def NUM_CHILD_def)
  with o have "key_to_index ?c = i" by (simp add: key_to_index_letter)
  with l show ?thesis by blast
qed

lemma live_has_key:
  "wf_node m \<Longrightarrow> live m \<Longrightarrow> \<exists>p. key_permitted p \<and> lookup_nodes m p \<noteq> None"
proof (induction m)
  case (Node cs c v h)
  show ?case
  proof (cases h)
    case True
    then have "lookup_nodes (Node cs c v h) [] \<noteq> None" by simp
    then show ?thesis by (intro exI [of _ "[]"]) simp
  next
    case False
    with Node.prems(2) have "node_has_children (Some (Node cs c v h))" and b: "below (Node cs c v h)"
      by (simp_all add: live_iff)
    then obtain i m' where i: "i < NUM_CHILD" "cs ! i = Some m'"
      by (auto simp: has_children_iff)
    from Node.prems(1) have len: "length cs = NUM_CHILD" by (simp add: wf_Node)
    with i have mem: "Some m' \<in> set cs" by (metis nth_mem)
    from Node.prems(1) i have wf': "wf_node m'" by (simp add: wf_Node)
    from b mem have "live m'" by (auto simp: below_def)
    with Node.IH [OF mem _ wf'] obtain p where p: "key_permitted p" "lookup_nodes m' p \<noteq> None"
      by auto
    from i(1) obtain d where d: "letter d" "key_to_index d = i" using letter_of_index by blast
    with p i(2) have "key_permitted (d # p)" "lookup_nodes (Node cs c v h) (d # p) \<noteq> None"
      by simp_all
    then show ?thesis by blast
  qed
qed

lemma keyless_trie_has_no_children:
  assumes "wf_trie t" "no_dead_leaf t" "\<forall>k. valid_key k \<longrightarrow> lookup_in_trie t k = None"
  shows "\<not> node_has_children (Some (trie_child t))"
proof
  assume "node_has_children (Some (trie_child t))"
  then obtain i m where i: "i < NUM_CHILD" "child (trie_child t) ! i = Some m"
    by (auto simp: has_children_iff slots_def)
  from assms(1) i have wf: "wf_node m" by (auto simp: wf_trie_def intro: wf_child)
  from assms(1,2) i have "live m" by (simp add: no_dead_leaf_below wf_trie_def below_iff)
  with wf obtain p where p: "key_permitted p" "lookup_nodes m p \<noteq> None"
    using live_has_key by blast
  from i(1) obtain d where d: "letter d" "key_to_index d = i" using letter_of_index by blast
  with p i(2) have "valid_key (d # p)" "lookup_in_trie t (d # p) \<noteq> None"
    by (simp_all add: valid_key_def lookup_in_trie_def)
  with assms(3) show False by simp
qed

lemma destroy_without_children:
  "\<not> node_has_children (Some (trie_child t)) \<Longrightarrow> destroy_trie t = Inr ()"
  by (auto simp: destroy_trie_def node_has_children_def any_child_iff list_all_iff)

lemma apply_op_invariants:
  assumes "wf_trie t" "no_dead_leaf t" "inserted x ok" "apply_op t x = Inr (ok, t')"
  shows "wf_trie t' \<and> no_dead_leaf t'"
proof (cases x)
  case (Insert k v a)
  with assms(4) have "t' = snd (add_to_trie k v t a)" "ok = fst (add_to_trie k v t a)"
    by simp_all
  with assms(1,2,3) Insert show ?thesis
    by (simp add: wf_add_to_trie no_dead_leaf_add_to_trie)
next
  case (Delete k a)
  with assms(4) obtain freed where d: "delete_from_trie t k a = Inr (ok, t', freed)"
    by (auto split: sum.splits)
  then have "no_dead_leaf t'" using assms(1,2) no_dead_leaf_delete by blast
  moreover have "wf_trie t'"
  proof (cases "valid_key k")
    case True
    with assms(1) show ?thesis
    proof (cases rule: delete_cases [where a = a])
      case refused
      with d assms(1) show ?thesis by simp
    next
      case (deleted t'' freed')
      with d show ?thesis by simp
    qed
  next
    case False
    then have "t' = t \<or> t' = Trie (clear_value (trie_child t))"
      using d
      by (cases "k = []")
         (auto simp: valid_key_def delete_from_trie_def Let_def split: if_splits option.splits)
    with assms(1) show ?thesis by (auto simp: wf_trie_def wf_clear_value)
  qed
  ultimately show ?thesis by simp
qed

lemma run_invariants:
  assumes "wf_trie t0" "no_dead_leaf t0" "run t0 ops = Inr (t, oks)" "list_all2 inserted ops oks"
  shows "wf_trie t \<and> no_dead_leaf t"
  using assms
proof (induction ops arbitrary: t0 oks)
  case Nil
  then show ?case by simp
next
  case (Cons x xs)
  from Cons.prems(3) obtain ok t1 oks1 where a: "apply_op t0 x = Inr (ok, t1)"
    and r: "run t1 xs = Inr (t, oks1)" and oks: "oks = ok # oks1"
    by (auto split: sum.splits prod.splits)
  from Cons.prems(4) oks have i: "inserted x ok" "list_all2 inserted xs oks1" by simp_all
  from Cons.prems(1,2) i(1) a have "wf_trie t1 \<and> no_dead_leaf t1"
    by (intro apply_op_invariants [of t0 x ok]) simp_all
  with Cons.IH [of t1 oks1] r i(2) show ?case by simp
qed

text \<open>
  C8, as amended. From the trie that \<^verbatim>\<open>create_trie\<close> returns, every sequence of
  insertions and deletions with valid keys runs to its end; if every insertion in it
  returned \<^verbatim>\<open>TRUE\<close> and every key that was inserted has been deleted again by a
  deletion that returned \<^verbatim>\<open>TRUE\<close>, the root of the trie it ends in has no children
  and \<^verbatim>\<open>destroy_trie\<close> passes its assertion. More generally the root has no children,
  and the assertion passes, in every well-formed trie that holds no key and has no
  node but the root that is a leaf without a value.
\<close>

theorem destroy_of_emptied_trie:
  shows "(create_trie a0 = Some t0 \<and> (\<forall>x\<in>set ops. valid_key (op_key x)) \<longrightarrow>
            (\<exists>t oks. run t0 ops = Inr (t, oks) \<and>
               (list_all2 inserted ops oks \<and> (\<forall>k. finite_map ops oks k = None) \<longrightarrow>
                  \<not> node_has_children (Some (trie_child t)) \<and> destroy_trie t = Inr ()))) \<and>
         (wf_trie s \<and> no_dead_leaf s \<and> (\<forall>k. valid_key k \<longrightarrow> lookup_in_trie s k = None) \<longrightarrow>
            \<not> node_has_children (Some (trie_child s)) \<and> destroy_trie s = Inr ())"
proof -
  have state: "\<not> node_has_children (Some (trie_child t)) \<and> destroy_trie t = Inr ()"
    if "wf_trie t" "no_dead_leaf t" "\<forall>k. valid_key k \<longrightarrow> lookup_in_trie t k = None" for t
    using that keyless_trie_has_no_children [of t] destroy_without_children [of t] by blast
  have "\<exists>t oks. run t0 ops = Inr (t, oks) \<and>
          (list_all2 inserted ops oks \<and> (\<forall>k. finite_map ops oks k = None) \<longrightarrow>
             \<not> node_has_children (Some (trie_child t)) \<and> destroy_trie t = Inr ())"
    if c: "create_trie a0 = Some t0" and v: "\<forall>x\<in>set ops. valid_key (op_key x)"
  proof -
    from c have t0: "t0 = empty_trie" by (rule create_trie_Some)
    from run_refines [OF wf_empty_trie _ v] lookup_empty_trie
    obtain t oks where r: "run empty_trie ops = Inr (t, oks)"
      and l: "\<forall>k. lookup_in_trie t k = finite_map ops oks k"
      by blast
    have "\<not> node_has_children (Some (trie_child t)) \<and> destroy_trie t = Inr ()"
      if i: "list_all2 inserted ops oks" and e: "\<forall>k. finite_map ops oks k = None"
    proof -
      from l e have "\<forall>k. valid_key k \<longrightarrow> lookup_in_trie t k = None" by simp
      moreover from run_invariants [OF wf_empty_trie no_dead_leaf_empty_trie r i]
      have "wf_trie t" "no_dead_leaf t" by simp_all
      ultimately show ?thesis using state by blast
    qed
    with r t0 show ?thesis by blast
  qed
  with state [of s] show ?thesis by blast
qed

theorem destroy_of_emptied_trie_witness:
  "create_trie None = Some empty_trie \<and>
   list_all (\<lambda>x. valid_key (op_key x)) main_c_ops \<and>
   run empty_trie main_c_ops
     = Inr (empty_trie, [True, True, True, True, True, True, True, False, True]) \<and>
   list_all2 inserted main_c_ops [True, True, True, True, True, True, True, False, True] \<and>
   (\<forall>k. finite_map main_c_ops [True, True, True, True, True, True, True, False, True] k = None) \<and>
   \<not> node_has_children (Some (trie_child empty_trie)) \<and>
   destroy_trie empty_trie = Inr ()"
proof -
  let ?oks = "[True, True, True, True, True, True, True, False, True]"
  have c: "create_trie None = Some empty_trie"
    by (simp add: create_trie_def malloc_ok_def after_malloc_def empty_trie_def)
  have v: "\<forall>x\<in>set main_c_ops. valid_key (op_key x)"
    using main_c_valid by (simp add: list_all_iff)
  from run_refines [OF wf_empty_trie _ v] main_c_run lookup_empty_trie
  have e: "\<forall>k. finite_map main_c_ops ?oks k = None" by auto
  from destroy_of_emptied_trie [of None empty_trie main_c_ops, THEN conjunct1, THEN mp,
      OF conjI [OF c v]]
  have "\<exists>t oks. run empty_trie main_c_ops = Inr (t, oks) \<and>
          (list_all2 inserted main_c_ops oks \<and> (\<forall>k. finite_map main_c_ops oks k = None) \<longrightarrow>
             \<not> node_has_children (Some (trie_child t)) \<and> destroy_trie t = Inr ())"
    .
  with main_c_run main_c_inserted e
  have "\<not> node_has_children (Some (trie_child empty_trie)) \<and> destroy_trie empty_trie = Inr ()"
    by auto
  with c main_c_valid main_c_run main_c_inserted e show ?thesis by (intro conjI) simp_all
qed

lemma refused_insert_valid: "list_all (\<lambda>x. valid_key (op_key x)) refused_insert_ops"
  by (simp add: refused_insert_ops_def valid_key_def letter_def)

lemma refused_insert_run:
  "run empty_trie refused_insert_ops = Inr (stranded_trie, [True, False, True])"
  by code_simp

lemma refused_insert_map: "finite_map refused_insert_ops [True, False, True] k = None"
  by (simp add: refused_insert_ops_def finite_map_def)

lemma refused_insert_lookup: "lookup_in_trie stranded_trie k = None"
proof -
  have v: "\<forall>x\<in>set refused_insert_ops. valid_key (op_key x)"
    using refused_insert_valid by (simp add: list_all_iff)
  from run_refines [OF wf_empty_trie _ v] refused_insert_run lookup_empty_trie
  have "\<forall>k. lookup_in_trie stranded_trie k = finite_map refused_insert_ops [True, False, True] k"
    by auto
  then show ?thesis by (simp add: refused_insert_map)
qed

lemma stranded_children: "node_has_children (Some (trie_child stranded_trie))"
  by code_simp

lemma stranded_destroy: "destroy_trie stranded_trie = Inl Assertion_failed"
  by code_simp

text \<open>The claim as it was stated fails after an insertion during which \<^verbatim>\<open>malloc\<close>
  grants one node and refuses the next: \<open>a\<close> is inserted, the insertion of \<open>bc\<close>
  returns \<^verbatim>\<open>FALSE\<close> and leaves the node for \<open>b\<close> linked under the root, and \<open>a\<close> is
  deleted. Every key that was inserted has then been deleted, no lookup finds a key
  (\<open>refused_insert_lookup\<close>), and the assertion of \<^verbatim>\<open>destroy_trie\<close> fails.\<close>

theorem destroy_after_refused_insert_counterexample:
  "create_trie None = Some empty_trie \<and> valid_key ''a'' \<and> valid_key ''bc'' \<and>
   run empty_trie refused_insert_ops = Inr (stranded_trie, [True, False, True]) \<and>
   finite_map refused_insert_ops [True, False, True] ''a'' = None \<and>
   finite_map refused_insert_ops [True, False, True] ''bc'' = None \<and>
   lookup_in_trie stranded_trie ''a'' = None \<and>
   lookup_in_trie stranded_trie ''bc'' = None \<and>
   node_has_children (Some (trie_child stranded_trie)) \<and>
   destroy_trie stranded_trie = Inl Assertion_failed"
proof -
  have "create_trie None = Some empty_trie"
    by (simp add: create_trie_def malloc_ok_def after_malloc_def empty_trie_def)
  moreover have "valid_key ''a''" "valid_key ''bc''"
    by (simp_all add: valid_key_def letter_def)
  ultimately show ?thesis
    using refused_insert_run refused_insert_map refused_insert_lookup
      stranded_children stranded_destroy
    by (intro conjI)
qed

end
